theory Spec2Isabelle
  imports Complex_Main
begin

section \<open>Scene loading: dispatch on the file name (loaders/load_scene.cpp)\<close>

text \<open>
  \<^verbatim>\<open>load_scene\<close> takes a C string that may be a null pointer: the model takes a
  \<open>string option\<close>, \<open>None\<close> for the null pointer. What it prints on \<^verbatim>\<open>std::cerr\<close>
  is returned as the list of printed lines. The two format loaders are not part of the
  function: the model takes them as parameters (their boolean result on a file name)
  and records which one was called. \<^verbatim>\<open>NOGZLIB\<close> is a build flag, a boolean parameter.
\<close>

datatype loader = ObjLoader | Bk3dLoader

record load_result =
  returned :: bool
  cerr :: "string list"
  invoked :: "loader option"

text \<open>\<^verbatim>\<open>std::string::rfind\<close> of a one-character pattern: the last position of the
  character, \<open>None\<close> for \<^verbatim>\<open>npos\<close>.\<close>

fun rfind :: "char \<Rightarrow> string \<Rightarrow> nat option" where
  "rfind c [] = None"
| "rfind c (x # xs) =
     (case rfind c xs of
        Some i \<Rightarrow> Some (Suc i)
      | None \<Rightarrow> if x = c then Some 0 else None)"

definition load_scene ::
  "bool \<Rightarrow> (string \<Rightarrow> bool) \<Rightarrow> (string \<Rightarrow> bool) \<Rightarrow> string option \<Rightarrow> load_result" where
  "load_scene nogzlib load_obj_scene load_bk3d_scene filename =
     (case filename of
        None \<Rightarrow> \<lparr>returned = False, cerr = [], invoked = None\<rparr>
      | Some s \<Rightarrow>
          if length s < 4 then \<lparr>returned = False, cerr = [], invoked = None\<rparr>
          else
            (case rfind CHR ''.'' s of
               None \<Rightarrow>
                 \<lparr>returned = False,
                  cerr = [''Could not parse filename extension for: '' @ s],
                  invoked = None\<rparr>
             | Some pos \<Rightarrow>
                 let extension = drop pos s in
                 if extension = ''.obj'' then
                   \<lparr>returned = load_obj_scene s, cerr = [], invoked = Some ObjLoader\<rparr>
                 else if nogzlib \<and> extension = ''.gz'' then
                   \<lparr>returned = False,
                    cerr = [''Unhandled .gz extension; must rebuild with ZLIB support to load this file.'', s],
                    invoked = None\<rparr>
                 else if extension = ''.bk3d'' \<or> extension = ''.gz'' then
                   \<lparr>returned = load_bk3d_scene s, cerr = [], invoked = Some Bk3dLoader\<rparr>
                 else
                   \<lparr>returned = load_bk3d_scene s,
                    cerr = [''Unhandled filename extension: '' @ extension
                              @ ''.  Attempting to load as bk3d'', s],
                    invoked = Some Bk3dLoader\<rparr>))"

section \<open>Surface sampling (bake_sample.cpp): the model\<close>

text \<open>
  Arithmetic. \<^verbatim>\<open>float\<close> and \<^verbatim>\<open>double\<close> values are modelled by real numbers and their
  operations by the exact operations: rounding is not part of this model (a separate
  model of \<^verbatim>\<open>halton\<close> with binary32 rounding follows below). What is part of the
  model is every place where the exact value does not exist: normalising the zero
  vector (\<open>0 * (1 / 0)\<close>, a vector of NaNs in the program) gives \<open>None\<close>, and a
  conversion to an integer type of a value that has no integer part to take (\<open>0 / 0\<close>)
  or does not fit the type is a failure of the run.

  Integers. \<^verbatim>\<open>size_t\<close> counts are natural numbers: every count of the program is
  bounded by the number of samples, so that no 64-bit operation wraps around (the
  subtractions \<^verbatim>\<open>num_samples - sample_idx\<close> are taken where \<open>sample_idx \<le> num_samples\<close>).
  The casts \<^verbatim>\<open>(unsigned)\<close> of the source are 32-bit and are written out (\<open>u32\<close>).

  Failure. \<^verbatim>\<open>assert\<close> is taken as active: a failed assertion ends the run with
  \<open>AssertFailed\<close> and the line of the assertion. A read or write outside an array is
  \<open>OutOfBounds\<close>. Null pointers are not values of the model's lists.
\<close>

datatype failure = AssertFailed nat | OutOfBounds | UndefinedCast | NoResult

type_synonym float3 = "real \<times> real \<times> real"
type_synonym int3 = "int \<times> int \<times> int"

definition u32 :: "nat \<Rightarrow> nat" where
  "u32 n = n mod 2 ^ 32"

subsection \<open>The Halton sequence\<close>

text \<open>
  \<^verbatim>\<open>halton<BASE>(index)\<close>. \<open>BASE\<close> is a template parameter. For \<open>BASE = 1\<close> the loop
  never ends on a positive index, and for \<open>BASE = 0\<close> the remainder \<^verbatim>\<open>i % BASE\<close> is
  undefined: there the function has no result, the value \<open>None\<close>.
\<close>

function halton_loop :: "nat \<Rightarrow> nat \<Rightarrow> real \<Rightarrow> real \<Rightarrow> real option" where
  "halton_loop base i f result =
     (if 0 < i then
        (if base < 2 then None
         else halton_loop base (i div base) (f * (1 / real base))
                (result + f * real (i mod base)))
      else Some result)"
  by pat_completeness auto
termination
  by (relation "measure (\<lambda>(base, i, f, result). i)") auto

declare halton_loop.simps [simp del]

definition halton :: "nat \<Rightarrow> nat \<Rightarrow> real option" where
  "halton base index = halton_loop base index (1 / real base) 0"

text \<open>
  The radix inverse, in the words of the specification: expand the index in digits of
  the base (\<open>digits_msb\<close>, most significant digit first), reverse the digits, and read
  them as the digits of a fraction (\<open>frac_value\<close>, most significant fractional digit
  first).
\<close>

function digits_msb :: "nat \<Rightarrow> nat \<Rightarrow> nat list" where
  "digits_msb b n = (if n = 0 \<or> b < 2 then [] else digits_msb b (n div b) @ [n mod b])"
  by pat_completeness auto
termination
  by (relation "measure (\<lambda>(b, n). n)") auto

declare digits_msb.simps [simp del]

fun frac_value :: "nat \<Rightarrow> nat list \<Rightarrow> real" where
  "frac_value b [] = 0"
| "frac_value b (d # ds) = (real d + frac_value b ds) / real b"

definition radix_inverse :: "nat \<Rightarrow> nat \<Rightarrow> real" where
  "radix_inverse b n = frac_value b (rev (digits_msb b n))"

subsection \<open>The Halton sequence in binary32\<close>








subsection \<open>Vectors (optixu_math_namespace.h)\<close>

definition vadd :: "float3 \<Rightarrow> float3 \<Rightarrow> float3" where
  "vadd a b = (case a of (ax, ay, az) \<Rightarrow> case b of (bx, by, bz) \<Rightarrow> (ax + bx, ay + by, az + bz))"

definition vsub :: "float3 \<Rightarrow> float3 \<Rightarrow> float3" where
  "vsub a b = (case a of (ax, ay, az) \<Rightarrow> case b of (bx, by, bz) \<Rightarrow> (ax - bx, ay - by, az - bz))"

definition vscale :: "real \<Rightarrow> float3 \<Rightarrow> float3" where
  "vscale s a = (case a of (ax, ay, az) \<Rightarrow> (s * ax, s * ay, s * az))"

definition vneg :: "float3 \<Rightarrow> float3" where
  "vneg a = (case a of (ax, ay, az) \<Rightarrow> (- ax, - ay, - az))"

definition dot :: "float3 \<Rightarrow> float3 \<Rightarrow> real" where
  "dot a b = (case a of (ax, ay, az) \<Rightarrow> case b of (bx, by, bz) \<Rightarrow> ax * bx + ay * by + az * bz)"

definition cross :: "float3 \<Rightarrow> float3 \<Rightarrow> float3" where
  "cross a b =
     (case a of (ax, ay, az) \<Rightarrow> case b of (bx, by, bz) \<Rightarrow>
        (ay * bz - az * by, az * bx - ax * bz, ax * by - ay * bx))"

text \<open>\<^verbatim>\<open>optix::normalize(v)\<close> is \<^verbatim>\<open>v * (1.0f / sqrtf(dot(v, v)))\<close>. For the zero vector
  this is \<open>0 * \<infinity>\<close>, a vector of NaNs: \<open>None\<close>.\<close>

definition normalize_f3 :: "float3 \<Rightarrow> float3 option" where
  "normalize_f3 v = (if dot v v = 0 then None else Some (vscale (1 / sqrt (dot v v)) v))"

text \<open>A comparison with a NaN is false: \<^verbatim>\<open>dot(a, b) > 0\<close> and \<^verbatim>\<open>dot(a, b) >= 0\<close> on
  vectors that may be NaN.\<close>

definition dot_pos :: "float3 option \<Rightarrow> float3 option \<Rightarrow> bool" where
  "dot_pos a b = (case a of None \<Rightarrow> False | Some u \<Rightarrow> (case b of None \<Rightarrow> False | Some v \<Rightarrow> 0 < dot u v))"

definition dot_nonneg :: "float3 option \<Rightarrow> float3 option \<Rightarrow> bool" where
  "dot_nonneg a b = (case a of None \<Rightarrow> False | Some u \<Rightarrow> (case b of None \<Rightarrow> False | Some v \<Rightarrow> 0 \<le> dot u v))"

subsection \<open>faceforward\<close>

text \<open>The static variable \<^verbatim>\<open>warned\<close> and the lines printed on \<^verbatim>\<open>std::cerr\<close> are the
  state \<open>(warned, printed lines)\<close> that \<open>faceforward\<close> takes and returns.\<close>

type_synonym warn_state = "bool \<times> string list"

definition faceforward :: "float3 \<Rightarrow> float3 option \<Rightarrow> warn_state \<Rightarrow> float3 \<times> warn_state" where
  "faceforward normal geom_normal w =
     (if dot_pos (Some normal) geom_normal then (normal, w)
      else (vneg normal,
            if fst w then w
            else (True, snd w @
              [''WARNING: Reversing vertex normals to point in same direction as face normals''])))"

subsection \<open>The data\<close>

record Mesh =
  num_vertices :: nat
  num_triangles :: nat
  vertices :: "float3 list"
  tri_vertex_indices :: "int3 list"
  normals :: "float3 list option"
  tri_normal_indices :: "int3 list option"

record SampleInfo =
  tri_idx :: nat
  bary :: float3
  dA :: real

text \<open>The output arrays, allocated by the caller. The two arrays of normals hold
  \<open>None\<close> where the program holds a vector of NaNs.\<close>

record AOSamples =
  num_samples :: nat
  sample_positions :: "float3 list"
  sample_normals :: "float3 option list"
  sample_face_normals :: "float3 option list"
  sample_infos :: "SampleInfo list"

text \<open>
  The state of a run of \<^verbatim>\<open>sample_surface_random\<close>: the output arrays, the counter
  \<^verbatim>\<open>sample_idx\<close>, and the state of \<open>faceforward\<close>. The field \<open>calls\<close> is not in the
  program: it records every call of \<^verbatim>\<open>sample_triangle\<close> as (triangle, begin, end,
  value of \<^verbatim>\<open>sample_idx\<close> at the call), so that statements about the calls can be
  made.
\<close>

record bake_state = AOSamples +
  sample_idx :: nat
  warn :: warn_state
  calls :: "(nat \<times> nat \<times> nat \<times> nat) list"

text \<open>A read of a C array at an \<^verbatim>\<open>int\<close> index.\<close>

definition fetch :: "'a list \<Rightarrow> int \<Rightarrow> failure + 'a" where
  "fetch xs i = (if 0 \<le> i \<and> nat i < length xs then Inr (xs ! nat i) else Inl OutOfBounds)"

subsection \<open>sample\_triangle\<close>

text \<open>What \<^verbatim>\<open>sample_triangle\<close> computes before its loop: the vertices, the face
  normal, the three vertex normals and the offset of the triangle.\<close>

record tri_ctx =
  ctx_tri :: nat
  ctx_v0 :: float3
  ctx_v1 :: float3
  ctx_v2 :: float3
  ctx_face_normal :: "float3 option"
  ctx_n0 :: "float3 option"
  ctx_n1 :: "float3 option"
  ctx_n2 :: "float3 option"
  ctx_offset :: "real \<times> real"

text \<open>\<^verbatim>\<open>(int)x\<close> on a \<^verbatim>\<open>float\<close>: truncation towards zero, undefined outside the range
  of \<^verbatim>\<open>int\<close>.\<close>

definition float_to_int :: "real \<Rightarrow> failure + int" where
  "float_to_int x =
     (let k = (if 0 \<le> x then \<lfloor>x\<rfloor> else \<lceil>x\<rceil>)
      in if - (2 ^ 31) \<le> k \<and> k < 2 ^ 31 then Inr k else Inl UndefinedCast)"

text \<open>Lines 100 and 101 (and 102, 103): a Halton point shifted by the offset, and its
  fractional part. The argument of \<^verbatim>\<open>halton\<close> is \<^verbatim>\<open>(unsigned)index+1\<close>, in 32-bit
  arithmetic.\<close>

definition halton_index :: "nat \<Rightarrow> nat" where
  "halton_index index = u32 (u32 index + 1)"

definition shifted_halton :: "nat \<Rightarrow> real \<Rightarrow> nat \<Rightarrow> failure + real" where
  "shifted_halton base off index =
     (case halton base (halton_index index) of
        None \<Rightarrow> Inl NoResult
      | Some h \<Rightarrow>
          (case float_to_int (off + h) of
             Inl e \<Rightarrow> Inl e
           | Inr k \<Rightarrow> Inr (off + h - real_of_int k)))"

text \<open>Lines 108 to 111: the map from the unit square to barycentric coordinates.\<close>

definition map_to_triangle :: "real \<Rightarrow> real \<Rightarrow> float3" where
  "map_to_triangle r1 r2 =
     (let sqrt_r1 = sqrt r1;
          bx = 1 - sqrt_r1;
          by = r2 * sqrt_r1;
          bz = 1 - bx - by
      in (bx, by, bz))"

text \<open>Lines 113 and 114: the interpolated position, and the interpolated normal (NaN
  as soon as one of the three normals is).\<close>

definition bary_mix :: "float3 \<Rightarrow> float3 \<Rightarrow> float3 \<Rightarrow> float3 \<Rightarrow> float3" where
  "bary_mix b a0 a1 a2 =
     (case b of (bx, by, bz) \<Rightarrow> vadd (vadd (vscale bx a0) (vscale by a1)) (vscale bz a2))"

definition shading_normal ::
  "float3 \<Rightarrow> float3 option \<Rightarrow> float3 option \<Rightarrow> float3 option \<Rightarrow> float3 option" where
  "shading_normal b n0 n1 n2 =
     (case n0 of None \<Rightarrow> None | Some a0 \<Rightarrow>
      (case n1 of None \<Rightarrow> None | Some a1 \<Rightarrow>
       (case n2 of None \<Rightarrow> None | Some a2 \<Rightarrow> normalize_f3 (bary_mix b a0 a1 a2))))"

text \<open>One turn of the loop of \<^verbatim>\<open>sample_triangle\<close> (lines 95 to 115, and the
  increment of \<^verbatim>\<open>sample_idx\<close>).\<close>

definition sample_step :: "tri_ctx \<Rightarrow> nat \<Rightarrow> bake_state \<Rightarrow> failure + bake_state" where
  "sample_step c index st =
     (let s = sample_idx st in
      if \<not> (s < length (sample_infos st) \<and> s < length (sample_positions st) \<and>
             s < length (sample_normals st) \<and> s < length (sample_face_normals st))
      then Inl OutOfBounds
      else
        (case shifted_halton 2 (fst (ctx_offset c)) index of
           Inl e \<Rightarrow> Inl e
         | Inr r1 \<Rightarrow>
             (case shifted_halton 3 (snd (ctx_offset c)) index of
                Inl e \<Rightarrow> Inl e
              | Inr r2 \<Rightarrow>
                  if \<not> (0 \<le> r1 \<and> r1 \<le> 1) then Inl (AssertFailed 104)
                  else if \<not> (0 \<le> r2 \<and> r2 \<le> 1) then Inl (AssertFailed 105)
                  else
                    let b = map_to_triangle r1 r2 in
                    Inr (st\<lparr>sample_infos :=
                               (sample_infos st)
                                 [s := (sample_infos st ! s)\<lparr>tri_idx := u32 (ctx_tri c), bary := b\<rparr>],
                             sample_positions :=
                               (sample_positions st)
                                 [s := bary_mix b (ctx_v0 c) (ctx_v1 c) (ctx_v2 c)],
                             sample_normals :=
                               (sample_normals st)
                                 [s := shading_normal b (ctx_n0 c) (ctx_n1 c) (ctx_n2 c)],
                             sample_face_normals :=
                               (sample_face_normals st)[s := ctx_face_normal c],
                             sample_idx := s + 1\<rparr>))))"

function sample_loop :: "tri_ctx \<Rightarrow> nat \<Rightarrow> nat \<Rightarrow> bake_state \<Rightarrow> failure + bake_state" where
  "sample_loop c index tri_sample_end st =
     (if index < tri_sample_end then
        (case sample_step c index st of
           Inl e \<Rightarrow> Inl e
         | Inr st' \<Rightarrow> sample_loop c (index + 1) tri_sample_end st')
      else Inr st)"
  by pat_completeness auto
termination
  by (relation "measure (\<lambda>(c, index, tri_sample_end, st). tri_sample_end - index)") auto

declare sample_loop.simps [simp del]

text \<open>Lines 70 to 91. The offset of a triangle comes from \<^verbatim>\<open>tea<4>\<close> and \<^verbatim>\<open>rnd\<close> of
  \<^verbatim>\<open>random.h\<close>, which is not among the sources: it is the parameter \<open>offset\<close>, a
  function of the triangle index as cast to \<^verbatim>\<open>unsigned\<close>.\<close>

definition tri_setup ::
  "Mesh \<Rightarrow> (nat \<Rightarrow> real \<times> real) \<Rightarrow> nat \<Rightarrow> warn_state \<Rightarrow> failure + (tri_ctx \<times> warn_state)" where
  "tri_setup mesh offset t w =
     (case fetch (tri_vertex_indices mesh) (int t) of
        Inl e \<Rightarrow> Inl e
      | Inr (tx, ty, tz) \<Rightarrow>
     (case fetch (vertices mesh) tx of Inl e \<Rightarrow> Inl e | Inr v0 \<Rightarrow>
     (case fetch (vertices mesh) ty of Inl e \<Rightarrow> Inl e | Inr v1 \<Rightarrow>
     (case fetch (vertices mesh) tz of Inl e \<Rightarrow> Inl e | Inr v2 \<Rightarrow>
       let face_normal = normalize_f3 (cross (vsub v1 v0) (vsub v2 v0));
           c = \<lparr>ctx_tri = t, ctx_v0 = v0, ctx_v1 = v1, ctx_v2 = v2,
                ctx_face_normal = face_normal,
                ctx_n0 = face_normal, ctx_n1 = face_normal, ctx_n2 = face_normal,
                ctx_offset = offset (u32 t)\<rparr>
       in
       (case normals mesh of
          None \<Rightarrow> Inr (c, w)
        | Some ns \<Rightarrow>
          (case tri_normal_indices mesh of
             None \<Rightarrow> Inr (c, w)
           | Some nis \<Rightarrow>
             (case fetch nis (int t) of
                Inl e \<Rightarrow> Inl e
              | Inr (nx, ny, nz) \<Rightarrow>
             (case fetch ns nx of Inl e \<Rightarrow> Inl e | Inr m0 \<Rightarrow>
             (case fetch ns ny of Inl e \<Rightarrow> Inl e | Inr m1 \<Rightarrow>
             (case fetch ns nz of Inl e \<Rightarrow> Inl e | Inr m2 \<Rightarrow>
               let (n0, w0) = faceforward m0 face_normal w;
                   (n1, w1) = faceforward m1 face_normal w0;
                   (n2, w2) = faceforward m2 face_normal w1
               in Inr (c\<lparr>ctx_n0 := Some n0, ctx_n1 := Some n1, ctx_n2 := Some n2\<rparr>, w2)))))))))))"

definition sample_triangle ::
  "Mesh \<Rightarrow> (nat \<Rightarrow> real \<times> real) \<Rightarrow> nat \<Rightarrow> nat \<Rightarrow> nat \<Rightarrow> bake_state \<Rightarrow> failure + bake_state" where
  "sample_triangle mesh offset t tri_sample_begin tri_sample_end st =
     (case tri_setup mesh offset t (warn st) of
        Inl e \<Rightarrow> Inl e
      | Inr (c, w) \<Rightarrow>
          sample_loop c tri_sample_begin tri_sample_end
            (st\<lparr>warn := w,
                calls := calls st @ [(t, tri_sample_begin, tri_sample_end, sample_idx st)]\<rparr>))"

subsection \<open>triangle\_area\<close>

definition triangle_area :: "float3 \<Rightarrow> float3 \<Rightarrow> float3 \<Rightarrow> real" where
  "triangle_area v0 v1 v2 =
     (let e0 = vsub v1 v0;
          e1 = vsub v2 v0
      in case cross e0 e1 of (x, y, z) \<Rightarrow> 0.5 * sqrt (x * x + y * y + z * z))"

subsection \<open>sample\_surface\_random\<close>

text \<open>A state of the three placement loops: the run's state and the vector
  \<^verbatim>\<open>tri_sample_counts\<close>.\<close>

type_synonym place_state = "bake_state \<times> nat list"

text \<open>Lines 158 to 163: the minimum number of samples on every triangle.\<close>

function place_min ::
  "Mesh \<Rightarrow> (nat \<Rightarrow> real \<times> real) \<Rightarrow> nat \<Rightarrow> nat \<Rightarrow> place_state \<Rightarrow> failure + place_state" where
  "place_min mesh offset min_samples_per_triangle t ps =
     (if t < num_triangles mesh then
        (case sample_triangle mesh offset t 0 min_samples_per_triangle (fst ps) of
           Inl e \<Rightarrow> Inl e
         | Inr st' \<Rightarrow>
             place_min mesh offset min_samples_per_triangle (t + 1)
               (st', (snd ps)[t := snd ps ! t + min_samples_per_triangle]))
      else Inr ps)"
  by pat_completeness auto
termination
  by (relation "measure (\<lambda>(mesh, offset, m, t, ps). num_triangles mesh - t)") auto

declare place_min.simps [simp del]

text \<open>Lines 166 to 174: the areas of the triangles and their sum.\<close>

function area_loop :: "Mesh \<Rightarrow> nat \<Rightarrow> real list \<times> real \<Rightarrow> failure + (real list \<times> real)" where
  "area_loop mesh t acc =
     (if t < num_triangles mesh then
        (case fetch (tri_vertex_indices mesh) (int t) of
           Inl e \<Rightarrow> Inl e
         | Inr (tx, ty, tz) \<Rightarrow>
        (case fetch (vertices mesh) tx of Inl e \<Rightarrow> Inl e | Inr v0 \<Rightarrow>
        (case fetch (vertices mesh) ty of Inl e \<Rightarrow> Inl e | Inr v1 \<Rightarrow>
        (case fetch (vertices mesh) tz of Inl e \<Rightarrow> Inl e | Inr v2 \<Rightarrow>
           let area = triangle_area v0 v1 v2
           in area_loop mesh (t + 1) ((fst acc)[t := area], snd acc + area)))))
      else Inr acc)"
  by pat_completeness auto
termination
  by (relation "measure (\<lambda>(mesh, t, acc). num_triangles mesh - t)") auto

declare area_loop.simps [simp del]

text \<open>Line 179, \<^verbatim>\<open>static_cast<size_t>(num_mesh_samples * tri_areas[tri_idx] / mesh_area)\<close>.
  With a mesh area of zero the quotient is a NaN or an infinity, and its conversion to
  \<^verbatim>\<open>size_t\<close> is undefined, as is the conversion of a value outside the range of
  \<^verbatim>\<open>size_t\<close>.\<close>

definition area_share :: "nat \<Rightarrow> real \<Rightarrow> real \<Rightarrow> failure + nat" where
  "area_share num_mesh_samples area mesh_area =
     (if mesh_area = 0 then Inl UndefinedCast
      else
        let q = real num_mesh_samples * area / mesh_area in
        if - 1 < q \<and> q < 2 ^ 64 then Inr (nat \<lfloor>q\<rfloor>) else Inl UndefinedCast)"

text \<open>Lines 177 to 184: samples in proportion to the areas.\<close>

function place_by_area ::
  "Mesh \<Rightarrow> (nat \<Rightarrow> real \<times> real) \<Rightarrow> nat \<Rightarrow> nat \<Rightarrow> real list \<Rightarrow> real \<Rightarrow> nat \<Rightarrow> place_state
     \<Rightarrow> failure + place_state" where
  "place_by_area mesh offset n num_mesh_samples tri_areas mesh_area t ps =
     (if t < num_triangles mesh \<and> sample_idx (fst ps) < n then
        (case area_share num_mesh_samples (tri_areas ! t) mesh_area of
           Inl e \<Rightarrow> Inl e
         | Inr q \<Rightarrow>
             let k = min (n - sample_idx (fst ps)) q in
             (case sample_triangle mesh offset t (snd ps ! t) (snd ps ! t + k) (fst ps) of
                Inl e \<Rightarrow> Inl e
              | Inr st' \<Rightarrow>
                  place_by_area mesh offset n num_mesh_samples tri_areas mesh_area (t + 1)
                    (st', (snd ps)[t := snd ps ! t + k])))
      else Inr ps)"
  by pat_completeness auto
termination
  by (relation "measure (\<lambda>(mesh, offset, n, m, tri_areas, mesh_area, t, ps). num_triangles mesh - t)")
     auto

declare place_by_area.simps [simp del]

text \<open>Lines 188 to 194: one more sample per triangle until the target is reached.\<close>

function place_rest ::
  "Mesh \<Rightarrow> (nat \<Rightarrow> real \<times> real) \<Rightarrow> nat \<Rightarrow> nat \<Rightarrow> place_state \<Rightarrow> failure + place_state" where
  "place_rest mesh offset n t ps =
     (if t < num_triangles mesh \<and> sample_idx (fst ps) < n then
        (case sample_triangle mesh offset t (snd ps ! t) (snd ps ! t + 1) (fst ps) of
           Inl e \<Rightarrow> Inl e
         | Inr st' \<Rightarrow> place_rest mesh offset n (t + 1) (st', (snd ps)[t := snd ps ! t + 1]))
      else Inr ps)"
  by pat_completeness auto
termination
  by (relation "measure (\<lambda>(mesh, offset, n, t, ps). num_triangles mesh - t)") auto

declare place_rest.simps [simp del]

text \<open>Lines 202 to 204: the inner loop of the last pass, \<^verbatim>\<open>sample_infos[k++].dA = dA\<close>
  for \<open>i\<close> up to the count of the triangle. It returns the array and \<open>k\<close>.\<close>

function stamp_dA ::
  "real \<Rightarrow> nat \<Rightarrow> nat \<Rightarrow> SampleInfo list \<times> nat \<Rightarrow> failure + (SampleInfo list \<times> nat)" where
  "stamp_dA a cnt i ik =
     (if i < cnt then
        (if snd ik < length (fst ik)
         then stamp_dA a cnt (i + 1) ((fst ik)[snd ik := (fst ik ! snd ik)\<lparr>dA := a\<rparr>], snd ik + 1)
         else Inl OutOfBounds)
      else Inr ik)"
  by pat_completeness auto
termination
  by (relation "measure (\<lambda>(a, cnt, i, ik). cnt - i)") auto

declare stamp_dA.simps [simp del]

text \<open>Lines 199 to 205: the pass over the triangles that computes \<open>dA\<close>.\<close>

function dA_loop ::
  "nat \<Rightarrow> real list \<Rightarrow> nat list \<Rightarrow> nat \<Rightarrow> SampleInfo list \<times> nat
     \<Rightarrow> failure + (SampleInfo list \<times> nat)" where
  "dA_loop nt tri_areas tri_sample_counts t ik =
     (if t < nt then
        (if \<not> 0 < tri_sample_counts ! t then Inl (AssertFailed 200)
         else
           (case stamp_dA (tri_areas ! t / real (tri_sample_counts ! t)) (tri_sample_counts ! t) 0 ik of
              Inl e \<Rightarrow> Inl e
            | Inr ik' \<Rightarrow> dA_loop nt tri_areas tri_sample_counts (t + 1) ik'))
      else Inr ik)"
  by pat_completeness auto
termination
  by (relation "measure (\<lambda>(nt, tri_areas, cnts, t, ik). nt - t)") auto

declare dA_loop.simps [simp del]

text \<open>The result of a run: the final state, with the output arrays, and the two local
  vectors \<^verbatim>\<open>tri_sample_counts\<close> and \<^verbatim>\<open>tri_areas\<close>, which the statements below are
  about.\<close>

record bake_result =
  final :: bake_state
  tri_sample_counts :: "nat list"
  tri_areas :: "real list"

text \<open>The function, in two parts. Its inputs are the mesh,
  \<^verbatim>\<open>min_samples_per_triangle\<close>, the output arrays as the caller allocated them, the
  offsets of the triangles, and the state of \<open>faceforward\<close> when the function is
  entered. The first part is lines 137 to 184: the assertions on the inputs (those on
  pointers have nothing to check in the model), the minimum per triangle, the areas,
  and the samples in proportion to the areas. It returns the state of the placement
  and the areas.\<close>

definition area_sampling ::
  "Mesh \<Rightarrow> nat \<Rightarrow> AOSamples \<Rightarrow> (nat \<Rightarrow> real \<times> real) \<Rightarrow> warn_state
     \<Rightarrow> failure + (place_state \<times> real list)" where
  "area_sampling mesh min_samples_per_triangle ao_samples offset w =
     (if \<not> num_triangles mesh * min_samples_per_triangle \<le> num_samples ao_samples
      then Inl (AssertFailed 137)
      else if num_vertices mesh = 0 then Inl (AssertFailed 139)
      else
        let st0 = AOSamples.extend ao_samples (bake_state.fields 0 w []);
            n = num_samples ao_samples
        in
        (case place_min mesh offset min_samples_per_triangle 0
                (st0, replicate (num_triangles mesh) 0) of
           Inl e \<Rightarrow> Inl e
         | Inr ps1 \<Rightarrow>
        (case area_loop mesh 0 (replicate (num_triangles mesh) 0, 0) of
           Inl e \<Rightarrow> Inl e
         | Inr (areas, mesh_area) \<Rightarrow>
        (case place_by_area mesh offset n (n - sample_idx (fst ps1)) areas mesh_area 0 ps1 of
           Inl e \<Rightarrow> Inl e
         | Inr ps2 \<Rightarrow> Inr (ps2, areas)))))"

text \<open>The second part is lines 187 to 208: the assertion on the samples left, one more
  sample per triangle, the pass that computes \<open>dA\<close>, and the last assertion.\<close>

definition sample_surface_random ::
  "Mesh \<Rightarrow> nat \<Rightarrow> AOSamples \<Rightarrow> (nat \<Rightarrow> real \<times> real) \<Rightarrow> warn_state \<Rightarrow> failure + bake_result" where
  "sample_surface_random mesh min_samples_per_triangle ao_samples offset w =
     (case area_sampling mesh min_samples_per_triangle ao_samples offset w of
        Inl e \<Rightarrow> Inl e
      | Inr (ps2, areas) \<Rightarrow>
        let n = num_samples ao_samples in
        if \<not> n - sample_idx (fst ps2) \<le> num_triangles mesh then Inl (AssertFailed 187)
        else
        (case place_rest mesh offset n 0 ps2 of
           Inl e \<Rightarrow> Inl e
         | Inr ps3 \<Rightarrow>
        (case dA_loop (num_triangles mesh) areas (snd ps3) 0 (sample_infos (fst ps3), 0) of
           Inl e \<Rightarrow> Inl e
         | Inr (infos, k) \<Rightarrow>
        if sample_idx (fst ps3) \<noteq> n then Inl (AssertFailed 208)
        else Inr \<lparr>final = (fst ps3)\<lparr>sample_infos := infos\<rparr>,
                  tri_sample_counts = snd ps3,
                  tri_areas = areas\<rparr>)))"

section \<open>Predicates of the statements\<close>

definition valid_bary :: "float3 \<Rightarrow> bool" where
  "valid_bary b = (case b of (bx, by, bz) \<Rightarrow> bx + by + bz = 1 \<and> 0 \<le> bx \<and> 0 \<le> by \<and> 0 \<le> bz)"

text \<open>The four values stored at slot \<open>k\<close>.\<close>

definition slot :: "bake_state \<Rightarrow> nat \<Rightarrow> SampleInfo \<times> float3 \<times> float3 option \<times> float3 option" where
  "slot st k = (sample_infos st ! k, sample_positions st ! k, sample_normals st ! k,
                sample_face_normals st ! k)"

definition same_lengths :: "bake_state \<Rightarrow> bake_state \<Rightarrow> bool" where
  "same_lengths st st' \<longleftrightarrow>
     length (sample_infos st') = length (sample_infos st) \<and>
     length (sample_positions st') = length (sample_positions st) \<and>
     length (sample_normals st') = length (sample_normals st) \<and>
     length (sample_face_normals st') = length (sample_face_normals st)"

definition room :: "bake_state \<Rightarrow> nat" where
  "room st = min (min (length (sample_infos st)) (length (sample_positions st)))
                 (min (length (sample_normals st)) (length (sample_face_normals st)))"

text \<open>What one turn of the loop stores, from the point \<open>(r1, r2)\<close> of the unit square.\<close>

definition sample_value ::
  "tri_ctx \<Rightarrow> real \<Rightarrow> real \<Rightarrow> SampleInfo \<Rightarrow> SampleInfo \<times> float3 \<times> float3 option \<times> float3 option" where
  "sample_value c r1 r2 old =
     (let b = map_to_triangle r1 r2
      in (old\<lparr>tri_idx := u32 (ctx_tri c), bary := b\<rparr>,
          bary_mix b (ctx_v0 c) (ctx_v1 c) (ctx_v2 c),
          shading_normal b (ctx_n0 c) (ctx_n1 c) (ctx_n2 c),
          ctx_face_normal c))"

definition generated :: "tri_ctx \<Rightarrow> nat \<Rightarrow> SampleInfo \<Rightarrow> SampleInfo \<times> float3 \<times> float3 option \<times> float3 option \<Rightarrow> bool" where
  "generated c index old v \<longleftrightarrow>
     (\<exists>r1 r2. shifted_halton 2 (fst (ctx_offset c)) index = Inr r1 \<and>
              shifted_halton 3 (snd (ctx_offset c)) index = Inr r2 \<and>
              0 \<le> r1 \<and> r1 \<le> 1 \<and> 0 \<le> r2 \<and> r2 \<le> 1 \<and>
              v = sample_value c r1 r2 old)"

text \<open>A vertex normal of the context points to the side of the face normal, when
  neither is a NaN.\<close>

definition forward :: "float3 option \<Rightarrow> float3 option \<Rightarrow> bool" where
  "forward n f = (case n of None \<Rightarrow> True | Some a \<Rightarrow> (case f of None \<Rightarrow> True | Some g \<Rightarrow> 0 \<le> dot a g))"

text \<open>The inputs that \<^verbatim>\<open>sample_surface_random\<close> requires without checking them: the
  indices of the triangles lie in the arrays they index, the offsets of the triangles
  lie in \<open>[0, 1)\<close> (the contract of \<^verbatim>\<open>rnd\<close>).\<close>

definition index_ok :: "'a list \<Rightarrow> int \<Rightarrow> bool" where
  "index_ok xs i \<longleftrightarrow> 0 \<le> i \<and> nat i < length xs"

definition int3_ok :: "'a list \<Rightarrow> int3 \<Rightarrow> bool" where
  "int3_ok xs i3 = (case i3 of (a, b, c) \<Rightarrow> index_ok xs a \<and> index_ok xs b \<and> index_ok xs c)"

definition tri_ok :: "Mesh \<Rightarrow> nat \<Rightarrow> bool" where
  "tri_ok mesh t \<longleftrightarrow>
     t < length (tri_vertex_indices mesh) \<and>
     int3_ok (vertices mesh) (tri_vertex_indices mesh ! t) \<and>
     (case normals mesh of
        None \<Rightarrow> True
      | Some ns \<Rightarrow>
          (case tri_normal_indices mesh of
             None \<Rightarrow> True
           | Some nis \<Rightarrow> t < length nis \<and> int3_ok ns (nis ! t)))"

definition mesh_ok :: "Mesh \<Rightarrow> bool" where
  "mesh_ok mesh = list_all (tri_ok mesh) [0..<num_triangles mesh]"

definition offsets_ok :: "(nat \<Rightarrow> real \<times> real) \<Rightarrow> bool" where
  "offsets_ok offset \<longleftrightarrow>
     (\<forall>t. 0 \<le> fst (offset t) \<and> fst (offset t) < 1 \<and> 0 \<le> snd (offset t) \<and> snd (offset t) < 1)"

section \<open>Inputs of the examples\<close>

text \<open>A right triangle in the plane \<open>z = 0\<close> whose vertex normals point down, a triangle
  with two equal vertices, output arrays of a given length, the state in which
  \<^verbatim>\<open>sample_surface_random\<close> starts, and an offset for every triangle.\<close>

definition right_triangle_mesh :: Mesh where
  "right_triangle_mesh = \<lparr>num_vertices = 3, num_triangles = 1,
      vertices = [(0, 0, 0), (1, 0, 0), (0, 1, 0)], tri_vertex_indices = [(0, 1, 2)],
      normals = Some [(0, 0, - 1)], tri_normal_indices = Some [(0, 0, 0)]\<rparr>"

definition flat_mesh :: Mesh where
  "flat_mesh = \<lparr>num_vertices = 2, num_triangles = 1,
      vertices = [(0, 0, 0), (1, 0, 0)], tri_vertex_indices = [(0, 1, 1)],
      normals = Some [(0, 0, 1)], tri_normal_indices = Some [(0, 0, 0)]\<rparr>"

definition blank :: "nat \<Rightarrow> AOSamples" where
  "blank n = \<lparr>num_samples = n,
      sample_positions = replicate n (0, 0, 0),
      sample_normals = replicate n None,
      sample_face_normals = replicate n None,
      sample_infos = replicate n \<lparr>tri_idx = 0, bary = (0, 0, 0), dA = 0\<rparr>\<rparr>"

definition start :: "AOSamples \<Rightarrow> warn_state \<Rightarrow> bake_state" where
  "start ao w = AOSamples.extend ao (bake_state.fields 0 w [])"

definition zero_offset :: "nat \<Rightarrow> real \<times> real" where
  "zero_offset t = (0, 0)"

text \<open>The areas as the program computes them, the index ranges and the slots of the
  recorded calls, what a sample written for a triangle and an index holds, and the
  invariant of the three placement loops.\<close>

definition tri_area :: "Mesh \<Rightarrow> nat \<Rightarrow> real" where
  "tri_area mesh t =
     (case tri_vertex_indices mesh ! t of
        (a, b, c) \<Rightarrow>
          triangle_area (vertices mesh ! nat a) (vertices mesh ! nat b) (vertices mesh ! nat c))"

definition total_area :: "Mesh \<Rightarrow> real" where
  "total_area mesh = sum_list (map (tri_area mesh) [0..<num_triangles mesh])"

definition ranges_of :: "nat \<Rightarrow> (nat \<times> nat \<times> nat \<times> nat) list \<Rightarrow> nat list" where
  "ranges_of t cs = concat (map (\<lambda>(t', b, e, s). if t' = t then [b..<e] else []) cs)"

definition slots_of :: "(nat \<times> nat \<times> nat \<times> nat) list \<Rightarrow> nat list" where
  "slots_of cs = concat (map (\<lambda>(t, b, e, s). [s..<s + (e - b)]) cs)"

definition written_from :: "(nat \<Rightarrow> real \<times> real) \<Rightarrow> nat \<Rightarrow> nat \<Rightarrow> SampleInfo \<Rightarrow> bool" where
  "written_from offset t index info \<longleftrightarrow>
     tri_idx info = u32 t \<and>
     (\<exists>r1 r2. shifted_halton 2 (fst (offset (u32 t))) index = Inr r1 \<and>
              shifted_halton 3 (snd (offset (u32 t))) index = Inr r2 \<and>
              bary info = map_to_triangle r1 r2)"

definition content_ok :: "(nat \<Rightarrow> real \<times> real) \<Rightarrow> (nat \<times> nat \<times> nat \<times> nat) list \<Rightarrow> SampleInfo list \<Rightarrow> bool" where
  "content_ok offset cs infos \<longleftrightarrow>
     (\<forall>(t, b, e, s) \<in> set cs. \<forall>j < e - b. written_from offset t (b + j) (infos ! (s + j)))"

definition placed :: "nat \<Rightarrow> (nat \<Rightarrow> real \<times> real) \<Rightarrow> place_state \<Rightarrow> bool" where
  "placed nt offset ps \<longleftrightarrow>
     length (snd ps) = nt \<and>
     sample_idx (fst ps) = sum_list (snd ps) \<and>
     slots_of (calls (fst ps)) = [0..<sample_idx (fst ps)] \<and>
     (\<forall>t < nt. ranges_of t (calls (fst ps)) = [0..<snd ps ! t]) \<and>
     content_ok offset (calls (fst ps)) (sample_infos (fst ps))"

text \<open>The last pass changes the field \<open>dA\<close> only.\<close>

definition same_samples :: "SampleInfo list \<Rightarrow> SampleInfo list \<Rightarrow> bool" where
  "same_samples xs ys \<longleftrightarrow>
     length ys = length xs \<and>
     (\<forall>j. tri_idx (ys ! j) = tri_idx (xs ! j) \<and> bary (ys ! j) = bary (xs ! j))"

text \<open>What a caller of \<^verbatim>\<open>sample_surface_random\<close> has to provide: a mesh whose indices are
  in range and which has a vertex, the four output arrays with room for \<open>num_samples\<close>
  samples, a number of samples that is a \<^verbatim>\<open>size_t\<close> and covers the minimum of every
  triangle, and offsets in \<open>[0, 1)\<close>.\<close>

definition run_ok :: "Mesh \<Rightarrow> nat \<Rightarrow> AOSamples \<Rightarrow> (nat \<Rightarrow> real \<times> real) \<Rightarrow> bool" where
  "run_ok mesh m ao offset \<longleftrightarrow>
     mesh_ok mesh \<and> offsets_ok offset \<and> num_vertices mesh \<noteq> 0 \<and>
     num_triangles mesh * m \<le> num_samples ao \<and> num_samples ao < 2 ^ 64 \<and>
     num_samples ao \<le> length (sample_positions ao) \<and>
     num_samples ao \<le> length (sample_normals ao) \<and>
     num_samples ao \<le> length (sample_face_normals ao) \<and>
     num_samples ao \<le> length (sample_infos ao)"

text \<open>A unit square made of two triangles, and a mesh with a vertex and no triangle.\<close>

definition square_mesh :: Mesh where
  "square_mesh = \<lparr>num_vertices = 4, num_triangles = 2,
      vertices = [(0, 0, 0), (1, 0, 0), (1, 1, 0), (0, 1, 0)],
      tri_vertex_indices = [(0, 1, 2), (0, 2, 3)],
      normals = None, tri_normal_indices = None\<rparr>"


text \<open>
  A proper triangle together with a degenerate one: triangle 1 uses vertex 1 twice, so its
  area is zero, while the mesh as a whole has area 1/2.
\<close>

definition sliver_mesh :: Mesh where
  "sliver_mesh = \<lparr>num_vertices = 3, num_triangles = 2,
      vertices = [(0, 0, 0), (1, 0, 0), (0, 1, 0)],
      tri_vertex_indices = [(0, 1, 2), (0, 1, 1)],
      normals = None, tri_normal_indices = None\<rparr>"

lemma rfind_None_iff: "rfind c s = None \<longleftrightarrow> c \<notin> set s"
  by (induction s) (auto split: option.splits)

text \<open>
  Claim C10, as the code has it. When \<^verbatim>\<open>load_scene\<close> ends without calling a format
  loader it returns false, for every file name (the function is total: no input makes
  it crash). It has then printed a diagnostic exactly when the name is not null and
  has at least 4 characters (a name without a dot, or the extension \<^verbatim>\<open>.gz\<close> in a build
  without zlib); for a null pointer and for a name shorter than 4 characters it
  returns false and prints nothing.
\<close>

theorem load_scene_failure_diagnostic:
  "invoked (load_scene nogzlib load_obj load_bk3d filename) = None \<Longrightarrow>
     \<not> returned (load_scene nogzlib load_obj load_bk3d filename) \<and>
     (cerr (load_scene nogzlib load_obj load_bk3d filename) \<noteq> [] \<longleftrightarrow>
        (\<exists>s. filename = Some s \<and> 4 \<le> length s))"
  by (auto simp: load_scene_def Let_def split: option.splits if_splits)

theorem load_scene_failure_diagnostic_witness:
  "invoked (load_scene False (\<lambda>_. True) (\<lambda>_. True) (Some ''scene'')) = None \<and>
   \<not> returned (load_scene False (\<lambda>_. True) (\<lambda>_. True) (Some ''scene'')) \<and>
   cerr (load_scene False (\<lambda>_. True) (\<lambda>_. True) (Some ''scene'')) \<noteq> []"
proof -
  have h: "invoked (load_scene False (\<lambda>_. True) (\<lambda>_. True) (Some ''scene'')) = None"
    by (simp add: load_scene_def)
  from load_scene_failure_diagnostic [OF h] h show ?thesis by simp
qed

theorem load_scene_silent_failure:
  "invoked (load_scene False (\<lambda>_. True) (\<lambda>_. True) None) = None \<and>
   returned (load_scene False (\<lambda>_. True) (\<lambda>_. True) None) = False \<and>
   cerr (load_scene False (\<lambda>_. True) (\<lambda>_. True) None) = [] \<and>
   invoked (load_scene False (\<lambda>_. True) (\<lambda>_. True) (Some ''abc'')) = None \<and>
   returned (load_scene False (\<lambda>_. True) (\<lambda>_. True) (Some ''abc'')) = False \<and>
   cerr (load_scene False (\<lambda>_. True) (\<lambda>_. True) (Some ''abc'')) = []"
  by (simp add: load_scene_def)

section \<open>The Halton sequence is the radix inverse\<close>

lemma digits_msb_value:
  "2 \<le> b \<Longrightarrow> foldl (\<lambda>a d. a * b + d) 0 (digits_msb b n) = n"
proof (induction b n rule: digits_msb.induct)
  case (1 b n)
  show ?case
  proof (cases "n = 0")
    case True
    then show ?thesis by (simp add: digits_msb.simps)
  next
    case False
    with 1 have "foldl (\<lambda>a d. a * b + d) 0 (digits_msb b (n div b)) = n div b" by simp
    with False 1(2) show ?thesis
      by (subst digits_msb.simps) simp
  qed
qed

lemma digits_msb_bound: "d \<in> set (digits_msb b n) \<Longrightarrow> d < b"
proof (induction b n rule: digits_msb.induct)
  case (1 b n)
  then show ?case
    by (subst (asm) (2) digits_msb.simps) (auto split: if_splits)
qed

lemma frac_value_range:
  "2 \<le> b \<Longrightarrow> (\<And>d. d \<in> set ds \<Longrightarrow> d < b) \<Longrightarrow> 0 \<le> frac_value b ds \<and> frac_value b ds < 1"
proof (induction ds)
  case Nil
  then show ?case by simp
next
  case (Cons d ds)
  then have ih: "0 \<le> frac_value b ds" "frac_value b ds < 1" by auto
  from Cons.prems have "d < b" by simp
  then have "real d + 1 \<le> real b" by linarith
  with ih have "real d + frac_value b ds < real b" by linarith
  with ih Cons.prems(1) show ?case by (simp add: divide_less_eq)
qed

lemma radix_inverse_range:
  "2 \<le> b \<Longrightarrow> 0 \<le> radix_inverse b n \<and> radix_inverse b n < 1"
  using frac_value_range [of b "rev (digits_msb b n)"]
  by (auto simp: radix_inverse_def dest: digits_msb_bound)

lemma halton_loop_radix:
  "2 \<le> base \<Longrightarrow>
   halton_loop base i f result =
     Some (result + f * real base * frac_value base (rev (digits_msb base i)))"
proof (induction base i f result rule: halton_loop.induct)
  case (1 base i f result)
  show ?case
  proof (cases "0 < i")
    case False
    then show ?thesis by (simp add: halton_loop.simps digits_msb.simps)
  next
    case True
    with 1 have ih:
      "halton_loop base (i div base) (f * (1 / real base)) (result + f * real (i mod base)) =
         Some (result + f * real (i mod base)
               + f * (1 / real base) * real base
                 * frac_value base (rev (digits_msb base (i div base))))"
      by simp
    have d: "digits_msb base i = digits_msb base (i div base) @ [i mod base]"
      using True 1(2) by (subst digits_msb.simps) simp
    from True 1(2) ih show ?thesis
      by (subst halton_loop.simps) (simp add: d field_simps)
  qed
qed

lemma halton_eq_radix_inverse: "2 \<le> base \<Longrightarrow> halton base index = Some (radix_inverse base index)"
  using halton_loop_radix [of base index "1 / real base" 0]
  by (simp add: halton_def radix_inverse_def)
























section \<open>The loop of sample\_triangle\<close>

lemma map_to_triangle_valid:
  assumes "0 \<le> r1" "r1 \<le> 1" "0 \<le> r2" "r2 \<le> 1"
  shows "valid_bary (map_to_triangle r1 r2)"
proof -
  have s0: "0 \<le> sqrt r1" using assms by simp
  have s1: "sqrt r1 \<le> 1" using assms by simp
  have "0 \<le> sqrt r1 * (1 - r2)" using s0 assms by simp
  then have "0 \<le> sqrt r1 - r2 * sqrt r1" by (simp add: algebra_simps)
  moreover have "0 \<le> r2 * sqrt r1" using s0 assms by simp
  ultimately show ?thesis
    using s1 by (simp add: valid_bary_def map_to_triangle_def Let_def)
qed

lemma float_to_int_frac:
  assumes "0 \<le> x" "x < 2"
  shows "\<exists>k. float_to_int x = Inr k \<and> 0 \<le> x - real_of_int k \<and> x - real_of_int k < 1"
proof -
  from assms have "0 \<le> \<lfloor>x\<rfloor>" "\<lfloor>x\<rfloor> < 2" by (simp_all add: floor_less_iff)
  then have "float_to_int x = Inr \<lfloor>x\<rfloor>"
    using assms by (simp add: float_to_int_def Let_def)
  moreover have "0 \<le> x - real_of_int \<lfloor>x\<rfloor>" "x - real_of_int \<lfloor>x\<rfloor> < 1" by linarith+
  ultimately show ?thesis by blast
qed

lemma shifted_halton_range:
  assumes "2 \<le> base" "0 \<le> off" "off < 1"
  shows "\<exists>r. shifted_halton base off index = Inr r \<and> 0 \<le> r \<and> r < 1"
proof -
  let ?h = "radix_inverse base (halton_index index)"
  have h: "halton base (halton_index index) = Some ?h"
    using assms(1) by (rule halton_eq_radix_inverse)
  have "0 \<le> ?h" "?h < 1" using radix_inverse_range [OF assms(1)] by auto
  with assms have "0 \<le> off + ?h" "off + ?h < 2" by auto
  from float_to_int_frac [OF this] obtain k where
    "float_to_int (off + ?h) = Inr k" "0 \<le> off + ?h - real_of_int k" "off + ?h - real_of_int k < 1"
    by blast
  then show ?thesis unfolding shifted_halton_def h by simp
qed

lemma sample_step_effect:
  assumes "sample_step c index st = Inr st'"
  shows "sample_idx st' = sample_idx st + 1"
    and "same_lengths st st'"
    and "sample_idx st < room st"
    and "generated c index (sample_infos st ! sample_idx st) (slot st' (sample_idx st))"
    and "k \<noteq> sample_idx st \<Longrightarrow> slot st' k = slot st k"
    and "warn st' = warn st" and "calls st' = calls st" and "num_samples st' = num_samples st"
  using assms
  by (auto simp: sample_step_def Let_def same_lengths_def room_def generated_def slot_def
      sample_value_def split: if_splits sum.splits)

lemma sample_step_success:
  assumes "sample_idx st < room st"
    and "0 \<le> fst (ctx_offset c)" "fst (ctx_offset c) < 1"
    and "0 \<le> snd (ctx_offset c)" "snd (ctx_offset c) < 1"
  shows "\<exists>st'. sample_step c index st = Inr st'"
proof -
  obtain r1 where r1: "shifted_halton 2 (fst (ctx_offset c)) index = Inr r1" "0 \<le> r1" "r1 < 1"
    using shifted_halton_range [of 2 "fst (ctx_offset c)" index] assms by auto
  obtain r2 where r2: "shifted_halton 3 (snd (ctx_offset c)) index = Inr r2" "0 \<le> r2" "r2 < 1"
    using shifted_halton_range [of 3 "snd (ctx_offset c)" index] assms by auto
  from assms(1) r1 r2 show ?thesis
    by (simp add: sample_step_def Let_def room_def)
qed

lemma slot_info: "fst (slot st k) = sample_infos st ! k"
  by (simp add: slot_def)

lemma same_lengths_room: "same_lengths st st' \<Longrightarrow> room st' = room st"
  by (simp add: same_lengths_def room_def)

lemma same_lengths_trans: "same_lengths a b \<Longrightarrow> same_lengths b c \<Longrightarrow> same_lengths a c"
  by (simp add: same_lengths_def)

lemma same_lengths_refl: "same_lengths a a"
  by (simp add: same_lengths_def)

lemma sample_loop_effect:
  "sample_loop c b e st = Inr st' \<Longrightarrow>
     sample_idx st' = sample_idx st + (e - b) \<and>
     same_lengths st st' \<and>
     (b < e \<longrightarrow> sample_idx st + (e - b) \<le> room st) \<and>
     (\<forall>j < e - b. generated c (b + j) (sample_infos st ! (sample_idx st + j))
                     (slot st' (sample_idx st + j))) \<and>
     (\<forall>k. k < sample_idx st \<or> sample_idx st + (e - b) \<le> k \<longrightarrow> slot st' k = slot st k) \<and>
     warn st' = warn st \<and> calls st' = calls st \<and> num_samples st' = num_samples st"
proof (induction c b e st rule: sample_loop.induct)
  case (1 c b e st)
  show ?case
  proof (cases "b < e")
    case False
    with "1.prems" have "st' = st" by (simp add: sample_loop.simps)
    with False show ?thesis by (simp add: same_lengths_refl)
  next
    case True
    with "1.prems" obtain st1 where
      step: "sample_step c b st = Inr st1" and rest: "sample_loop c (b + 1) e st1 = Inr st'"
      by (subst (asm) sample_loop.simps) (auto split: sum.splits)
    note s = sample_step_effect [OF step]
    from "1.IH" [OF True step rest] have
      ih1: "sample_idx st' = sample_idx st1 + (e - (b + 1))" and
      ih2: "same_lengths st1 st'" and
      ih3: "b + 1 < e \<Longrightarrow> sample_idx st1 + (e - (b + 1)) \<le> room st1" and
      ih4: "\<And>j. j < e - (b + 1) \<Longrightarrow>
              generated c (b + 1 + j) (sample_infos st1 ! (sample_idx st1 + j))
                (slot st' (sample_idx st1 + j))" and
      ih5: "\<And>k. k < sample_idx st1 \<or> sample_idx st1 + (e - (b + 1)) \<le> k \<Longrightarrow> slot st' k = slot st1 k" and
      ih6: "warn st' = warn st1" "calls st' = calls st1" "num_samples st' = num_samples st1"
      by auto
    have a: "sample_idx st' = sample_idx st + (e - b)"
      using ih1 s(1) True by simp
    have b': "same_lengths st st'"
      using s(2) ih2 by (rule same_lengths_trans)
    have c': "sample_idx st + (e - b) \<le> room st"
    proof (cases "b + 1 < e")
      case True
      from ih3 [OF this] s(1) True same_lengths_room [OF s(2)] show ?thesis by simp
    next
      case False
      with \<open>b < e\<close> have "e - b = 1" by simp
      with s(3) show ?thesis by simp
    qed
    have d: "generated c (b + j) (sample_infos st ! (sample_idx st + j))
               (slot st' (sample_idx st + j))" if "j < e - b" for j
    proof (cases j)
      case 0
      have "slot st' (sample_idx st) = slot st1 (sample_idx st)"
        using ih5 [of "sample_idx st"] s(1) by simp
      with s(4) 0 show ?thesis by simp
    next
      case (Suc j')
      with that have "j' < e - (b + 1)" by simp
      from ih4 [OF this] have
        "generated c (b + j) (sample_infos st1 ! (sample_idx st + j)) (slot st' (sample_idx st + j))"
        using s(1) Suc by simp
      moreover have "sample_infos st1 ! (sample_idx st + j) = sample_infos st ! (sample_idx st + j)"
        using s(5) [of "sample_idx st + j"] Suc slot_info [of st1] slot_info [of st]
        by (metis Zero_not_Suc add_cancel_right_right)
      ultimately show ?thesis by simp
    qed
    have f: "slot st' k = slot st k" if "k < sample_idx st \<or> sample_idx st + (e - b) \<le> k" for k
    proof -
      from that True s(1) have "k < sample_idx st1 \<or> sample_idx st1 + (e - (b + 1)) \<le> k" by auto
      from ih5 [OF this] have "slot st' k = slot st1 k" .
      moreover from that True have "k \<noteq> sample_idx st" by auto
      ultimately show ?thesis using s(5) by simp
    qed
    from a b' c' d f ih6 s(6,7,8) show ?thesis by (intro conjI impI allI) simp_all
  qed
qed

lemma sample_loop_success:
  "sample_idx st + (e - b) \<le> room st \<Longrightarrow>
   0 \<le> fst (ctx_offset c) \<Longrightarrow> fst (ctx_offset c) < 1 \<Longrightarrow>
   0 \<le> snd (ctx_offset c) \<Longrightarrow> snd (ctx_offset c) < 1 \<Longrightarrow>
   \<exists>st'. sample_loop c b e st = Inr st'"
proof (induction c b e st rule: sample_loop.induct)
  case (1 c b e st)
  show ?case
  proof (cases "b < e")
    case False
    then show ?thesis by (simp add: sample_loop.simps)
  next
    case True
    with "1.prems" have "sample_idx st < room st" by simp
    from sample_step_success [OF this "1.prems"(2-5)] obtain st1 where
      step: "sample_step c b st = Inr st1" by blast
    note s = sample_step_effect [OF step]
    have "sample_idx st1 + (e - (b + 1)) \<le> room st1"
      using "1.prems" True s(1) same_lengths_room [OF s(2)] by simp
    from "1.IH" [OF True step this "1.prems"(2-5)] obtain st' where
      "sample_loop c (b + 1) e st1 = Inr st'"
      by blast
    with True step show ?thesis
      by (subst sample_loop.simps) simp
  qed
qed

lemma dot_vneg: "dot (vneg a) b = - dot a b"
  by (cases a, cases b) (simp add: dot_def vneg_def)

lemma dot_vscale: "dot (vscale s a) b = s * dot a b"
  by (cases a, cases b) (simp add: dot_def vscale_def algebra_simps)

lemma dot_vadd: "dot (vadd a b) c = dot a c + dot b c"
  by (cases a, cases b, cases c) (simp add: dot_def vadd_def algebra_simps)

lemma dot_self_nonneg: "0 \<le> dot a a"
  by (cases a) (simp add: dot_def)


lemma faceforward_forward: "0 \<le> dot (fst (faceforward normal (Some f) w)) f"
  by (simp add: faceforward_def dot_pos_def dot_vneg)

lemma normalize_f3_forward: "forward (normalize_f3 v) (normalize_f3 v)"
  by (simp add: forward_def normalize_f3_def dot_self_nonneg)

lemma forward_self: "forward f f"
  by (simp add: forward_def dot_self_nonneg split: option.splits)

lemma forward_faceforward: "forward (Some (fst (faceforward m f w))) f"
  by (cases f) (simp_all add: forward_def faceforward_forward)

lemma forward_faceforward_eq: "faceforward m f w = (x, w') \<Longrightarrow> forward (Some x) f"
  using forward_faceforward [of m f w] by simp

lemma tri_setup_effect:
  assumes "tri_setup mesh offset t w = Inr (c, w')"
  shows "ctx_tri c = t" and "ctx_offset c = offset (u32 t)"
    and "forward (ctx_n0 c) (ctx_face_normal c)"
    and "forward (ctx_n1 c) (ctx_face_normal c)"
    and "forward (ctx_n2 c) (ctx_face_normal c)"
  using assms
  by (auto simp: tri_setup_def Let_def forward_self
      split: sum.splits option.splits prod.splits intro: forward_faceforward_eq)

lemma shading_normal_forward:
  assumes "valid_bary b" "forward n0 f" "forward n1 f" "forward n2 f"
    and "shading_normal b n0 n1 n2 = Some sn" "f = Some g"
  shows "0 \<le> dot sn g"
proof -
  obtain bx b1 bz where b: "b = (bx, b1, bz)" by (cases b)
  from assms(5) obtain a0 a1 a2 where n: "n0 = Some a0" "n1 = Some a1" "n2 = Some a2"
    and nz: "normalize_f3 (bary_mix b a0 a1 a2) = Some sn"
    by (auto simp: shading_normal_def split: option.splits)
  let ?v = "bary_mix b a0 a1 a2"
  from nz have sn: "sn = vscale (1 / sqrt (dot ?v ?v)) ?v"
    by (auto simp: normalize_f3_def split: if_splits)
  from assms(1) b have pos: "0 \<le> bx" "0 \<le> b1" "0 \<le> bz" by (simp_all add: valid_bary_def)
  from assms(2-4) n assms(6) have d: "0 \<le> dot a0 g" "0 \<le> dot a1 g" "0 \<le> dot a2 g"
    by (simp_all add: forward_def)
  have "dot ?v g = bx * dot a0 g + b1 * dot a1 g + bz * dot a2 g"
    by (simp add: b bary_mix_def dot_vadd dot_vscale)
  with pos d have "0 \<le> dot ?v g" by simp
  moreover have "0 \<le> 1 / sqrt (dot ?v ?v)" by (simp add: dot_self_nonneg)
  ultimately show ?thesis by (simp add: sn dot_vscale)
qed

lemma generated_valid_bary:
  "generated c index old v \<Longrightarrow> valid_bary (bary (fst v))"
  by (auto simp: generated_def sample_value_def Let_def intro: map_to_triangle_valid)

lemma generated_forward:
  assumes "generated c index old v"
    and "forward (ctx_n0 c) (ctx_face_normal c)" "forward (ctx_n1 c) (ctx_face_normal c)"
      "forward (ctx_n2 c) (ctx_face_normal c)"
    and "fst (snd (snd v)) \<noteq> None" "snd (snd (snd v)) \<noteq> None"
  shows "dot_nonneg (fst (snd (snd v))) (snd (snd (snd v)))"
proof -
  from assms(1) obtain r1 r2 where r: "0 \<le> r1" "r1 \<le> 1" "0 \<le> r2" "r2 \<le> 1"
    and v: "v = sample_value c r1 r2 old"
    by (auto simp: generated_def)
  let ?b = "map_to_triangle r1 r2"
  from v assms(5,6) obtain sn g where
    sn: "shading_normal ?b (ctx_n0 c) (ctx_n1 c) (ctx_n2 c) = Some sn" and g: "ctx_face_normal c = Some g"
    by (auto simp: sample_value_def Let_def)
  from shading_normal_forward [OF map_to_triangle_valid [OF r] assms(2-4) sn g]
  show ?thesis using v sn g by (simp add: sample_value_def Let_def dot_nonneg_def)
qed

lemma sample_triangle_effect:
  assumes "sample_triangle mesh offset t b e st = Inr st'"
  shows "\<exists>c w'. tri_setup mesh offset t (warn st) = Inr (c, w') \<and>
           sample_idx st' = sample_idx st + (e - b) \<and>
           same_lengths st st' \<and>
           (b < e \<longrightarrow> sample_idx st + (e - b) \<le> room st) \<and>
           (\<forall>j < e - b. generated c (b + j) (sample_infos st ! (sample_idx st + j))
                     (slot st' (sample_idx st + j))) \<and>
           (\<forall>k. k < sample_idx st \<or> sample_idx st + (e - b) \<le> k \<longrightarrow> slot st' k = slot st k) \<and>
           warn st' = w' \<and> calls st' = calls st @ [(t, b, e, sample_idx st)] \<and>
           num_samples st' = num_samples st"
proof -
  from assms obtain c w' where
    ts: "tri_setup mesh offset t (warn st) = Inr (c, w')" and
    loop: "sample_loop c b e (st\<lparr>warn := w', calls := calls st @ [(t, b, e, sample_idx st)]\<rparr>) = Inr st'"
    by (auto simp: sample_triangle_def split: sum.splits)
  let ?st0 = "st\<lparr>warn := w', calls := calls st @ [(t, b, e, sample_idx st)]\<rparr>"
  have l0: "same_lengths st ?st0" "room ?st0 = room st" "\<And>k. slot ?st0 k = slot st k"
    by (simp_all add: same_lengths_def room_def slot_def)
  from sample_loop_effect [OF loop] l0 ts show ?thesis
    by (auto simp: same_lengths_def)
qed

lemma fetch_ok: "index_ok xs i \<Longrightarrow> fetch xs i = Inr (xs ! nat i)"
  by (simp add: fetch_def index_ok_def)

lemma fetch_nat_ok: "t < length xs \<Longrightarrow> fetch xs (int t) = Inr (xs ! t)"
  by (simp add: fetch_def)

lemma tri_setup_success:
  assumes "tri_ok mesh t"
  shows "\<exists>c w'. tri_setup mesh offset t w = Inr (c, w')"
proof -
  obtain a b c where abc: "tri_vertex_indices mesh ! t = (a, b, c)"
    by (cases "tri_vertex_indices mesh ! t")
  from assms abc have v: "index_ok (vertices mesh) a" "index_ok (vertices mesh) b"
    "index_ok (vertices mesh) c" and t: "t < length (tri_vertex_indices mesh)"
    by (simp_all add: tri_ok_def int3_ok_def)
  show ?thesis
  proof (cases "normals mesh")
    case None
    then show ?thesis
      by (simp add: tri_setup_def fetch_nat_ok [OF t] abc fetch_ok [OF v(1)] fetch_ok [OF v(2)]
          fetch_ok [OF v(3)] Let_def)
  next
    case (Some ns)
    show ?thesis
    proof (cases "tri_normal_indices mesh")
      case None
      with Some show ?thesis
        by (simp add: tri_setup_def fetch_nat_ok [OF t] abc fetch_ok [OF v(1)] fetch_ok [OF v(2)]
            fetch_ok [OF v(3)] Let_def)
    next
      case nis: (Some nis)
      obtain x y z where xyz: "nis ! t = (x, y, z)" by (cases "nis ! t")
      from assms Some nis xyz have n: "index_ok ns x" "index_ok ns y" "index_ok ns z"
        and tn: "t < length nis"
        by (simp_all add: tri_ok_def int3_ok_def)
      show ?thesis
        by (simp add: tri_setup_def fetch_nat_ok [OF t] abc fetch_ok [OF v(1)] fetch_ok [OF v(2)]
            fetch_ok [OF v(3)] Let_def Some nis fetch_nat_ok [OF tn] xyz fetch_ok [OF n(1)]
            fetch_ok [OF n(2)] fetch_ok [OF n(3)] split: prod.splits)
    qed
  qed
qed

lemma sample_triangle_success:
  assumes "tri_ok mesh t" "offsets_ok offset" "sample_idx st + (e - b) \<le> room st"
  shows "\<exists>st'. sample_triangle mesh offset t b e st = Inr st'"
proof -
  from tri_setup_success [OF assms(1)] obtain c w' where
    ts: "tri_setup mesh offset t (warn st) = Inr (c, w')" by blast
  from tri_setup_effect(2) [OF ts] assms(2) have
    o: "0 \<le> fst (ctx_offset c)" "fst (ctx_offset c) < 1" "0 \<le> snd (ctx_offset c)" "snd (ctx_offset c) < 1"
    by (simp_all add: offsets_ok_def)
  let ?st0 = "st\<lparr>warn := w', calls := calls st @ [(t, b, e, sample_idx st)]\<rparr>"
  have "sample_idx ?st0 + (e - b) \<le> room ?st0"
    using assms(3) by (simp add: room_def)
  from sample_loop_success [OF this o] ts show ?thesis
    by (simp add: sample_triangle_def)
qed

lemma offsets_ok_zero: "offsets_ok zero_offset"
  by (simp add: offsets_ok_def zero_offset_def)

lemma start_simps:
  "sample_idx (start ao w) = 0" "warn (start ao w) = w" "calls (start ao w) = []"
  "num_samples (start ao w) = num_samples ao"
  "sample_infos (start ao w) = sample_infos ao"
  "sample_positions (start ao w) = sample_positions ao"
  "sample_normals (start ao w) = sample_normals ao"
  "sample_face_normals (start ao w) = sample_face_normals ao"
  by (simp_all add: start_def AOSamples.defs bake_state.defs)




lemma tri_ok_right: "tri_ok right_triangle_mesh 0"
  by (simp add: tri_ok_def right_triangle_mesh_def int3_ok_def index_ok_def)

lemma tri_ok_flat: "tri_ok flat_mesh 0"
  by (simp add: tri_ok_def flat_mesh_def int3_ok_def index_ok_def)



section \<open>The placement loops\<close>

lemma ranges_of_append [simp]: "ranges_of t (xs @ ys) = ranges_of t xs @ ranges_of t ys"
  by (simp add: ranges_of_def)

lemma slots_of_append [simp]: "slots_of (xs @ ys) = slots_of xs @ slots_of ys"
  by (simp add: slots_of_def)

lemma ranges_of_single: "ranges_of t [(t', b, e, s)] = (if t' = t then [b..<e] else [])"
  by (simp add: ranges_of_def)

lemma slots_of_single: "slots_of [(t, b, e, s)] = [s..<s + (e - b)]"
  by (simp add: slots_of_def)

lemma slots_of_member:
  "(t, b, e, s) \<in> set cs \<Longrightarrow> j < e - b \<Longrightarrow> s + j \<in> set (slots_of cs)"
proof (induction cs)
  case Nil
  then show ?case by simp
next
  case (Cons c cs)
  show ?case
  proof (cases "c = (t, b, e, s)")
    case True
    from Cons.prems(2) show ?thesis by (auto simp: slots_of_def True)
  next
    case False
    with Cons have "s + j \<in> set (slots_of cs)" by simp
    then show ?thesis by (simp add: slots_of_def)
  qed
qed

lemma upt_extend: "[0..<a] @ [a..<a + n] = [0..<a + n]"
  using upt_add_eq_append [of 0 a n] by simp

lemma generated_written_from:
  assumes "generated c index old v" "ctx_tri c = t" "ctx_offset c = offset (u32 t)"
  shows "written_from offset t index (fst v)"
proof -
  from assms(1) obtain r1 r2 where
    r: "shifted_halton 2 (fst (ctx_offset c)) index = Inr r1"
       "shifted_halton 3 (snd (ctx_offset c)) index = Inr r2"
    and v: "v = sample_value c r1 r2 old"
    unfolding generated_def by blast
  from v have "tri_idx (fst v) = u32 (ctx_tri c)" "bary (fst v) = map_to_triangle r1 r2"
    by (simp_all add: sample_value_def Let_def)
  with r assms(2,3) show ?thesis
    unfolding written_from_def by auto
qed

lemma placed_step:
  assumes p: "placed nt offset (st, cs)" and t: "t < nt"
    and run: "sample_triangle mesh offset t (cs ! t) (cs ! t + n) st = Inr st'"
  shows "placed nt offset (st', cs[t := cs ! t + n])"
proof -
  from p have len: "length cs = nt" and idx: "sample_idx st = sum_list cs"
    and sl: "slots_of (calls st) = [0..<sample_idx st]"
    and rg: "\<And>u. u < nt \<Longrightarrow> ranges_of u (calls st) = [0..<cs ! u]"
    and co: "content_ok offset (calls st) (sample_infos st)"
    by (simp_all add: placed_def)
  from sample_triangle_effect [OF run] obtain c w' where
    ts: "tri_setup mesh offset t (warn st) = Inr (c, w')" and
    idx': "sample_idx st' = sample_idx st + n" and
    gen: "\<And>j. j < n \<Longrightarrow> generated c (cs ! t + j) (sample_infos st ! (sample_idx st + j))
                     (slot st' (sample_idx st + j))" and
    fr: "\<And>k. k < sample_idx st \<Longrightarrow> slot st' k = slot st k" and
    cl: "calls st' = calls st @ [(t, cs ! t, cs ! t + n, sample_idx st)]"
    by auto
  have 1: "length (cs[t := cs ! t + n]) = nt" using len by simp
  have 2: "sample_idx st' = sum_list (cs[t := cs ! t + n])"
    using idx idx' t len by (simp add: sum_list_update)
  have 3: "slots_of (calls st') = [0..<sample_idx st']"
    by (simp add: cl sl slots_of_single idx' upt_extend)
  have 4: "ranges_of u (calls st') = [0..<cs[t := cs ! t + n] ! u]" if "u < nt" for u
    using that rg [OF that] len t
    by (cases "u = t") (simp_all add: cl ranges_of_single upt_extend)
  have 5: "content_ok offset (calls st') (sample_infos st')"
    unfolding content_ok_def
  proof (intro ballI, clarify)
    fix t0 b0 e0 s0 j
    assume m: "(t0, b0, e0, s0) \<in> set (calls st')" and j: "j < e0 - b0"
    show "written_from offset t0 (b0 + j) (sample_infos st' ! (s0 + j))"
    proof (cases "(t0, b0, e0, s0) \<in> set (calls st)")
      case True
      from slots_of_member [OF True j] sl have lt: "s0 + j < sample_idx st" by simp
      from fr [OF lt] have "sample_infos st' ! (s0 + j) = sample_infos st ! (s0 + j)"
        by (simp add: slot_def)
      with co True j show ?thesis by (auto simp: content_ok_def)
    next
      case False
      with m cl have e: "t0 = t" "b0 = cs ! t" "e0 = cs ! t + n" "s0 = sample_idx st" by auto
      with j have "j < n" by simp
      from generated_written_from [where offset = offset and t = t, OF gen [OF this] tri_setup_effect(1,2) [OF ts]]
      show ?thesis by (simp add: e slot_def)
    qed
  qed
  show ?thesis
    unfolding placed_def fst_conv snd_conv using 1 2 3 4 5 by blast
qed

lemma same_lengths_sym_room: "same_lengths a b \<Longrightarrow> room a = room b"
  by (simp add: same_lengths_def room_def)

lemma place_min_effect:
  "place_min mesh offset m t ps = Inr ps' \<Longrightarrow>
   placed (num_triangles mesh) offset ps \<Longrightarrow>
   (\<forall>u. t \<le> u \<and> u < num_triangles mesh \<longrightarrow> snd ps ! u = 0) \<Longrightarrow>
     placed (num_triangles mesh) offset ps' \<and>
     (\<forall>u < num_triangles mesh. snd ps' ! u = (if t \<le> u then m else snd ps ! u)) \<and>
     same_lengths (fst ps) (fst ps') \<and>
     num_samples (fst ps') = num_samples (fst ps) \<and>
     calls (fst ps') =
       calls (fst ps) @ map (\<lambda>u. (u, 0, m, sample_idx (fst ps) + (u - t) * m)) [t..<num_triangles mesh]"
proof (induction mesh offset m t ps rule: place_min.induct)
  case (1 mesh offset m t ps)
  let ?T = "num_triangles mesh"
  obtain st cs where ps: "ps = (st, cs)" by (cases ps)
  show ?case
  proof (cases "t < ?T")
    case False
    with "1.prems"(1) have "ps' = ps" by (simp add: place_min.simps)
    with False "1.prems"(2) show ?thesis by (simp add: same_lengths_refl)
  next
    case True
    with "1.prems"(1) ps obtain st1 where
      run: "sample_triangle mesh offset t 0 m st = Inr st1" and
      rest: "place_min mesh offset m (t + 1) (st1, cs[t := cs ! t + m]) = Inr ps'"
      by (subst (asm) place_min.simps) (auto split: sum.splits)
    from "1.prems"(3) True ps have z: "cs ! t = 0" by simp
    from run z have run': "sample_triangle mesh offset t (cs ! t) (cs ! t + m) st = Inr st1" by simp
    from "1.prems"(2) ps have p: "placed ?T offset (st, cs)" by simp
    then have len: "length cs = ?T" by (simp add: placed_def)
    from placed_step [OF p True run'] have p1: "placed ?T offset (st1, cs[t := cs ! t + m])" .
    have z1: "\<forall>u. t + 1 \<le> u \<and> u < ?T \<longrightarrow> snd (st1, cs[t := cs ! t + m]) ! u = 0"
      using "1.prems"(3) ps by simp
    from run ps have run0: "sample_triangle mesh offset t 0 m (fst ps) = Inr st1" by simp
    from "1.IH" [OF True run0] rest p1 z1 ps have
      ih: "placed ?T offset ps'"
        "\<And>u. u < ?T \<Longrightarrow> snd ps' ! u = (if t + 1 \<le> u then m else cs[t := cs ! t + m] ! u)"
        "same_lengths st1 (fst ps')"
        "num_samples (fst ps') = num_samples st1"
        "calls (fst ps') = calls st1 @
           map (\<lambda>u. (u, 0, m, sample_idx st1 + (u - (t + 1)) * m)) [t + 1..<?T]"
      by simp_all
    from sample_triangle_effect [OF run] have
      e: "sample_idx st1 = sample_idx st + m" "same_lengths st st1"
        "num_samples st1 = num_samples st" "calls st1 = calls st @ [(t, 0, m, sample_idx st)]"
      by auto
    have a: "snd ps' ! u = (if t \<le> u then m else snd ps ! u)" if "u < ?T" for u
      using ih(2) [OF that] that len z ps by (cases "u = t") auto
    have b: "same_lengths (fst ps) (fst ps')"
      using e(2) ih(3) ps by (auto intro: same_lengths_trans)
    have "[t..<?T] = t # [t + 1..<?T]" using True by (simp add: upt_conv_Cons)
    moreover have "sample_idx st + m + (u - (t + 1)) * m = sample_idx st + (u - t) * m"
      if "t + 1 \<le> u" for u
    proof -
      from that obtain d where "u = t + 1 + d" by (metis le_Suc_ex Suc_eq_plus1 add_Suc_right)
      then show ?thesis by simp
    qed
    then have "map (\<lambda>u. (u, 0, m, sample_idx st + m + (u - (t + 1)) * m)) [t + 1..<?T] =
               map (\<lambda>u. (u, 0::nat, m, sample_idx st + (u - t) * m)) [t + 1..<?T]"
      by simp
    ultimately have c: "calls (fst ps') =
       calls (fst ps) @ map (\<lambda>u. (u, 0, m, sample_idx (fst ps) + (u - t) * m)) [t..<?T]"
      using ih(5) e(1,4) ps by simp
    from ih(1) a b ih(4) e(3) c ps show ?thesis by simp
  qed
qed

lemma place_by_area_effect:
  "place_by_area mesh offset n nms areas mesh_area t ps = Inr ps' \<Longrightarrow>
   placed (num_triangles mesh) offset ps \<Longrightarrow>
     placed (num_triangles mesh) offset ps' \<and>
     (\<forall>u < num_triangles mesh. snd ps ! u \<le> snd ps' ! u) \<and>
     same_lengths (fst ps) (fst ps') \<and>
     num_samples (fst ps') = num_samples (fst ps) \<and>
     (sample_idx (fst ps) \<le> n \<longrightarrow> sample_idx (fst ps') \<le> n) \<and>
     (\<exists>xs. calls (fst ps') = calls (fst ps) @ xs)"
proof (induction mesh offset n nms areas mesh_area t ps rule: place_by_area.induct)
  case (1 mesh offset n nms areas mesh_area t ps)
  let ?T = "num_triangles mesh"
  obtain st cs where ps: "ps = (st, cs)" by (cases ps)
  show ?case
  proof (cases "t < ?T \<and> sample_idx (fst ps) < n")
    case False
    with "1.prems"(1) have "ps' = ps" by (subst (asm) place_by_area.simps) auto
    with "1.prems"(2) show ?thesis by (simp add: same_lengths_refl)
  next
    case True
    with "1.prems"(1) ps obtain q st1 where
      q: "area_share nms (areas ! t) mesh_area = Inr q" and
      run: "sample_triangle mesh offset t (cs ! t) (cs ! t + min (n - sample_idx st) q) st = Inr st1" and
      rest: "place_by_area mesh offset n nms areas mesh_area (t + 1)
               (st1, cs[t := cs ! t + min (n - sample_idx st) q]) = Inr ps'"
      by (subst (asm) place_by_area.simps) (auto simp: Let_def split: sum.splits)
    let ?k = "min (n - sample_idx st) q"
    from "1.prems"(2) ps have p: "placed ?T offset (st, cs)" by simp
    then have len: "length cs = ?T" by (simp add: placed_def)
    from True have t: "t < ?T" by simp
    from placed_step [OF p t run] have p1: "placed ?T offset (st1, cs[t := cs ! t + ?k])" .
    from q have q': "area_share nms (areas ! t) mesh_area = Inr q" .
    have k: "?k = min (n - sample_idx (fst ps)) q" using ps by simp
    from run ps have run0:
      "sample_triangle mesh offset t (snd ps ! t) (snd ps ! t + min (n - sample_idx (fst ps)) q) (fst ps) = Inr st1"
      by simp
    from rest ps have rest0:
      "place_by_area mesh offset n nms areas mesh_area (t + 1)
         (st1, (snd ps)[t := snd ps ! t + min (n - sample_idx (fst ps)) q]) = Inr ps'"
      by simp
    from p1 ps have p10: "placed ?T offset (st1, (snd ps)[t := snd ps ! t + min (n - sample_idx (fst ps)) q])"
      by simp
    from "1.IH" [OF True q' refl run0 rest0 p10] ps have
      ih: "placed ?T offset ps'"
        "\<And>u. u < ?T \<Longrightarrow> cs[t := cs ! t + ?k] ! u \<le> snd ps' ! u"
        "same_lengths st1 (fst ps')"
        "num_samples (fst ps') = num_samples st1"
        "sample_idx st1 \<le> n \<Longrightarrow> sample_idx (fst ps') \<le> n"
        "\<exists>xs. calls (fst ps') = calls st1 @ xs"
      by simp_all
    from sample_triangle_effect [OF run] have
      e: "sample_idx st1 = sample_idx st + ?k" "same_lengths st st1"
        "num_samples st1 = num_samples st"
        "calls st1 = calls st @ [(t, cs ! t, cs ! t + ?k, sample_idx st)]"
      by auto
    have a: "snd ps ! u \<le> snd ps' ! u" if "u < ?T" for u
      using ih(2) [OF that] that len ps by (cases "u = t") auto
    have b: "same_lengths (fst ps) (fst ps')"
      using e(2) ih(3) ps by (auto intro: same_lengths_trans)
    have c: "sample_idx (fst ps) \<le> n \<longrightarrow> sample_idx (fst ps') \<le> n"
      using ih(5) e(1) ps by auto
    have d: "\<exists>xs. calls (fst ps') = calls (fst ps) @ xs"
      using ih(6) e(4) ps by auto
    from ih(1) a b ih(4) e(3) c d ps show ?thesis by simp
  qed
qed

lemma place_rest_effect:
  "place_rest mesh offset n t ps = Inr ps' \<Longrightarrow>
   placed (num_triangles mesh) offset ps \<Longrightarrow>
     placed (num_triangles mesh) offset ps' \<and>
     (\<forall>u < num_triangles mesh. snd ps ! u \<le> snd ps' ! u) \<and>
     same_lengths (fst ps) (fst ps') \<and>
     num_samples (fst ps') = num_samples (fst ps) \<and>
     (sample_idx (fst ps) \<le> n \<longrightarrow> sample_idx (fst ps') \<le> n) \<and>
     (\<exists>xs. calls (fst ps') = calls (fst ps) @ xs)"
proof (induction mesh offset n t ps rule: place_rest.induct)
  case (1 mesh offset n t ps)
  let ?T = "num_triangles mesh"
  obtain st cs where ps: "ps = (st, cs)" by (cases ps)
  show ?case
  proof (cases "t < ?T \<and> sample_idx (fst ps) < n")
    case False
    with "1.prems"(1) have "ps' = ps" by (subst (asm) place_rest.simps) auto
    with "1.prems"(2) show ?thesis by (simp add: same_lengths_refl)
  next
    case True
    with "1.prems"(1) ps obtain st1 where
      run: "sample_triangle mesh offset t (cs ! t) (cs ! t + 1) st = Inr st1" and
      rest: "place_rest mesh offset n (t + 1) (st1, cs[t := cs ! t + 1]) = Inr ps'"
      by (subst (asm) place_rest.simps) (auto split: sum.splits)
    from "1.prems"(2) ps have p: "placed ?T offset (st, cs)" by simp
    then have len: "length cs = ?T" by (simp add: placed_def)
    from True have t: "t < ?T" by simp
    from placed_step [OF p t run] have p1: "placed ?T offset (st1, cs[t := cs ! t + 1])" .
    from run ps have run0:
      "sample_triangle mesh offset t (snd ps ! t) (snd ps ! t + 1) (fst ps) = Inr st1" by simp
    from "1.IH" [OF True run0] rest p1 ps have
      ih: "placed ?T offset ps'"
        "\<And>u. u < ?T \<Longrightarrow> cs[t := cs ! t + 1] ! u \<le> snd ps' ! u"
        "same_lengths st1 (fst ps')"
        "num_samples (fst ps') = num_samples st1"
        "sample_idx st1 \<le> n \<Longrightarrow> sample_idx (fst ps') \<le> n"
        "\<exists>xs. calls (fst ps') = calls st1 @ xs"
      by simp_all
    from sample_triangle_effect [OF run] have
      e: "sample_idx st1 = sample_idx st + 1" "same_lengths st st1"
        "num_samples st1 = num_samples st"
        "calls st1 = calls st @ [(t, cs ! t, cs ! t + 1, sample_idx st)]"
      by auto
    have a: "snd ps ! u \<le> snd ps' ! u" if "u < ?T" for u
      using ih(2) [OF that] that len ps by (cases "u = t") auto
    have b: "same_lengths (fst ps) (fst ps')"
      using e(2) ih(3) ps by (auto intro: same_lengths_trans)
    have c: "sample_idx (fst ps) \<le> n \<longrightarrow> sample_idx (fst ps') \<le> n"
      using ih(5) e(1) True ps by auto
    have d: "\<exists>xs. calls (fst ps') = calls (fst ps) @ xs"
      using ih(6) e(4) ps by auto
    from ih(1) a b ih(4) e(3) c d ps show ?thesis by simp
  qed
qed

lemma same_samples_refl: "same_samples xs xs"
  by (simp add: same_samples_def)

lemma same_samples_trans: "same_samples xs ys \<Longrightarrow> same_samples ys zs \<Longrightarrow> same_samples xs zs"
  by (simp add: same_samples_def)

lemma same_samples_update: "same_samples xs (xs[k := (xs ! k)\<lparr>dA := a\<rparr>])"
proof -
  have "tri_idx (xs[k := (xs ! k)\<lparr>dA := a\<rparr>] ! j) = tri_idx (xs ! j) \<and>
        bary (xs[k := (xs ! k)\<lparr>dA := a\<rparr>] ! j) = bary (xs ! j)" for j
  proof (cases "j = k \<and> k < length xs")
    case True
    then show ?thesis by simp
  next
    case False
    then have "xs[k := (xs ! k)\<lparr>dA := a\<rparr>] ! j = xs ! j"
      by (cases "j = k") (simp_all add: list_update_beyond)
    then show ?thesis by simp
  qed
  then show ?thesis by (simp add: same_samples_def)
qed

lemma stamp_dA_effect:
  "stamp_dA a cnt i ik = Inr ik' \<Longrightarrow>
     same_samples (fst ik) (fst ik') \<and> snd ik' = snd ik + (cnt - i)"
proof (induction a cnt i ik rule: stamp_dA.induct)
  case (1 a cnt i ik)
  show ?case
  proof (cases "i < cnt")
    case False
    with "1.prems" have "ik' = ik" by (simp add: stamp_dA.simps)
    with False show ?thesis by (simp add: same_samples_refl)
  next
    case True
    with "1.prems" have inr: "snd ik < length (fst ik)" and
      rest: "stamp_dA a cnt (i + 1) ((fst ik)[snd ik := (fst ik ! snd ik)\<lparr>dA := a\<rparr>], snd ik + 1) = Inr ik'"
      by (subst (asm) stamp_dA.simps, simp split: if_splits)+
    from "1.IH" [OF True inr rest] have
      "same_samples ((fst ik)[snd ik := (fst ik ! snd ik)\<lparr>dA := a\<rparr>]) (fst ik')"
      "snd ik' = snd ik + 1 + (cnt - (i + 1))" by simp_all
    with True same_samples_update [of "fst ik" "snd ik" a] show ?thesis
      by (auto intro: same_samples_trans)
  qed
qed

lemma stamp_dA_success:
  "snd ik + (cnt - i) \<le> length (fst ik) \<Longrightarrow> \<exists>ik'. stamp_dA a cnt i ik = Inr ik'"
proof (induction a cnt i ik rule: stamp_dA.induct)
  case (1 a cnt i ik)
  show ?case
  proof (cases "i < cnt")
    case False
    then show ?thesis by (simp add: stamp_dA.simps)
  next
    case True
    with "1.prems" have inr: "snd ik < length (fst ik)" by simp
    have "snd ((fst ik)[snd ik := (fst ik ! snd ik)\<lparr>dA := a\<rparr>], snd ik + 1) + (cnt - (i + 1))
            \<le> length (fst ((fst ik)[snd ik := (fst ik ! snd ik)\<lparr>dA := a\<rparr>], snd ik + 1))"
      using "1.prems" True by simp
    from "1.IH" [OF True inr this] True inr show ?thesis
      by (subst stamp_dA.simps) simp
  qed
qed

lemma dA_loop_effect:
  "dA_loop nt areas cnts t ik = Inr ik' \<Longrightarrow>
     same_samples (fst ik) (fst ik') \<and> (\<forall>u. t \<le> u \<and> u < nt \<longrightarrow> 0 < cnts ! u)"
proof (induction nt areas cnts t ik rule: dA_loop.induct)
  case (1 nt areas cnts t ik)
  show ?case
  proof (cases "t < nt")
    case False
    with "1.prems" have "ik' = ik" by (simp add: dA_loop.simps)
    with False show ?thesis by (simp add: same_samples_refl)
  next
    case True
    with "1.prems" obtain ik1 where pos: "0 < cnts ! t" and
      st: "stamp_dA (areas ! t / real (cnts ! t)) (cnts ! t) 0 ik = Inr ik1" and
      rest: "dA_loop nt areas cnts (t + 1) ik1 = Inr ik'"
      by (subst (asm) dA_loop.simps) (auto split: if_splits sum.splits)
    from pos have npos: "\<not> \<not> 0 < cnts ! t" by simp
    from "1.IH" [OF True npos st rest] have
      ih: "same_samples (fst ik1) (fst ik')" "\<And>u. t + 1 \<le> u \<Longrightarrow> u < nt \<Longrightarrow> 0 < cnts ! u"
      by simp_all
    have "0 < cnts ! u" if "t \<le> u" "u < nt" for u
      using that pos ih(2) [of u] by (cases "u = t") simp_all
    with stamp_dA_effect [OF st] ih(1) show ?thesis
      by (auto intro: same_samples_trans)
  qed
qed

lemma dA_loop_success:
  "(\<forall>u. t \<le> u \<and> u < nt \<longrightarrow> 0 < cnts ! u) \<Longrightarrow>
   snd ik + sum_list (map (\<lambda>u. cnts ! u) [t..<nt]) \<le> length (fst ik) \<Longrightarrow>
   \<exists>ik'. dA_loop nt areas cnts t ik = Inr ik'"
proof (induction nt areas cnts t ik rule: dA_loop.induct)
  case (1 nt areas cnts t ik)
  show ?case
  proof (cases "t < nt")
    case False
    then show ?thesis by (simp add: dA_loop.simps)
  next
    case True
    from "1.prems"(1) True have pos: "0 < cnts ! t" by simp
    then have npos: "\<not> \<not> 0 < cnts ! t" by simp
    have up: "[t..<nt] = t # [t + 1..<nt]" using True by (simp add: upt_conv_Cons)
    from "1.prems"(2) have "snd ik + (cnts ! t - 0) \<le> length (fst ik)" by (simp add: up)
    from stamp_dA_success [OF this] obtain ik1 where
      st: "stamp_dA (areas ! t / real (cnts ! t)) (cnts ! t) 0 ik = Inr ik1" by blast
    from stamp_dA_effect [OF st] have
      e: "length (fst ik1) = length (fst ik)" "snd ik1 = snd ik + cnts ! t"
      by (simp_all add: same_samples_def)
    have a: "\<forall>u. t + 1 \<le> u \<and> u < nt \<longrightarrow> 0 < cnts ! u" using "1.prems"(1) by simp
    have b: "snd ik1 + sum_list (map (\<lambda>u. cnts ! u) [t + 1..<nt]) \<le> length (fst ik1)"
      using "1.prems"(2) e by (simp add: up)
    from "1.IH" [OF True npos st a b] True pos st show ?thesis
      by (subst dA_loop.simps) simp
  qed
qed

lemma area_loop_effect:
  "area_loop mesh t acc = Inr acc' \<Longrightarrow> length (fst acc) = num_triangles mesh \<Longrightarrow>
     length (fst acc') = num_triangles mesh \<and>
     (\<forall>u < num_triangles mesh. fst acc' ! u = (if t \<le> u then tri_area mesh u else fst acc ! u)) \<and>
     snd acc' = snd acc + sum_list (map (tri_area mesh) [t..<num_triangles mesh])"
proof (induction mesh t acc rule: area_loop.induct)
  case (1 mesh t acc)
  let ?T = "num_triangles mesh"
  show ?case
  proof (cases "t < ?T")
    case False
    with "1.prems" have "acc' = acc" by (simp add: area_loop.simps)
    with False "1.prems"(2) show ?thesis by simp
  next
    case True
    with "1.prems"(1) obtain tx ty tz v0 v1 v2 where
      f: "fetch (tri_vertex_indices mesh) (int t) = Inr (tx, ty, tz)"
         "fetch (vertices mesh) tx = Inr v0" "fetch (vertices mesh) ty = Inr v1"
         "fetch (vertices mesh) tz = Inr v2" and
      rest: "area_loop mesh (t + 1)
               ((fst acc)[t := triangle_area v0 v1 v2], snd acc + triangle_area v0 v1 v2) = Inr acc'"
      by (subst (asm) area_loop.simps) (auto simp: Let_def split: sum.splits)
    from f have ta: "tri_area mesh t = triangle_area v0 v1 v2"
      by (auto simp: fetch_def tri_area_def split: if_splits)
    have l: "length (fst ((fst acc)[t := triangle_area v0 v1 v2], snd acc + triangle_area v0 v1 v2)) = ?T"
      using "1.prems"(2) by simp
    from "1.IH" [OF True f(1) refl refl f(2) f(3) f(4) refl rest l] have
      ih: "length (fst acc') = ?T"
        "\<And>u. u < ?T \<Longrightarrow> fst acc' ! u =
            (if t + 1 \<le> u then tri_area mesh u else (fst acc)[t := triangle_area v0 v1 v2] ! u)"
        "snd acc' = snd acc + triangle_area v0 v1 v2 + sum_list (map (tri_area mesh) [t + 1..<?T])"
      by simp_all
    have up: "[t..<?T] = t # [t + 1..<?T]" using True by (simp add: upt_conv_Cons)
    have a: "fst acc' ! u = (if t \<le> u then tri_area mesh u else fst acc ! u)" if "u < ?T" for u
      using ih(2) [OF that] that "1.prems"(2) ta by (cases "u = t") auto
    from ih(1) a ih(3) ta show ?thesis by (simp add: up)
  qed
qed

section \<open>The samples of one triangle\<close>






section \<open>The whole run\<close>

lemma start_eq: "AOSamples.extend ao (bake_state.fields 0 w []) = start ao w"
  by (simp add: start_def)

lemma run_cases:
  assumes "sample_surface_random mesh m ao offset w = Inr out"
  shows "\<exists>ps1 areas mesh_area ps2 ps3 infos k.
     num_triangles mesh * m \<le> num_samples ao \<and> num_vertices mesh \<noteq> 0 \<and>
     place_min mesh offset m 0 (start ao w, replicate (num_triangles mesh) 0) = Inr ps1 \<and>
     area_loop mesh 0 (replicate (num_triangles mesh) 0, 0) = Inr (areas, mesh_area) \<and>
     place_by_area mesh offset (num_samples ao) (num_samples ao - sample_idx (fst ps1))
        areas mesh_area 0 ps1 = Inr ps2 \<and>
     num_samples ao - sample_idx (fst ps2) \<le> num_triangles mesh \<and>
     place_rest mesh offset (num_samples ao) 0 ps2 = Inr ps3 \<and>
     dA_loop (num_triangles mesh) areas (snd ps3) 0 (sample_infos (fst ps3), 0) = Inr (infos, k) \<and>
     sample_idx (fst ps3) = num_samples ao \<and>
     out = \<lparr>final = (fst ps3)\<lparr>sample_infos := infos\<rparr>, tri_sample_counts = snd ps3,
            tri_areas = areas\<rparr>"
  using assms
  unfolding sample_surface_random_def area_sampling_def Let_def start_eq
  by (auto split: if_splits sum.splits prod.splits)

lemma placed_start: "placed n offset (start ao w, replicate n 0)"
  by (simp add: placed_def start_simps slots_of_def ranges_of_def content_ok_def)

lemma content_ok_same:
  "content_ok offset cs xs \<Longrightarrow> same_samples xs ys \<Longrightarrow> content_ok offset cs ys"
  unfolding content_ok_def written_from_def same_samples_def by auto

lemma run_placed:
  assumes "sample_surface_random mesh m ao offset w = Inr out"
  shows "placed (num_triangles mesh) offset (final out, tri_sample_counts out)"
    and "\<And>u. u < num_triangles mesh \<Longrightarrow> m \<le> tri_sample_counts out ! u"
    and "\<And>u. u < num_triangles mesh \<Longrightarrow> 0 < tri_sample_counts out ! u"
    and "sample_idx (final out) = num_samples ao"
    and "\<exists>xs. calls (final out) =
           map (\<lambda>u. (u, 0, m, u * m)) [0..<num_triangles mesh] @ xs"
    and "num_triangles mesh * m \<le> num_samples ao"
    and "length (tri_areas out) = num_triangles mesh"
    and "\<And>u. u < num_triangles mesh \<Longrightarrow> tri_areas out ! u = tri_area mesh u"
proof -
  let ?T = "num_triangles mesh" and ?N = "num_samples ao"
  from run_cases [OF assms] obtain ps1 areas mesh_area ps2 ps3 infos k where
    pre: "?T * m \<le> ?N" and
    r1: "place_min mesh offset m 0 (start ao w, replicate ?T 0) = Inr ps1" and
    ra: "area_loop mesh 0 (replicate ?T 0, 0) = Inr (areas, mesh_area)" and
    r2: "place_by_area mesh offset ?N (?N - sample_idx (fst ps1)) areas mesh_area 0 ps1 = Inr ps2" and
    r3: "place_rest mesh offset ?N 0 ps2 = Inr ps3" and
    r4: "dA_loop ?T areas (snd ps3) 0 (sample_infos (fst ps3), 0) = Inr (infos, k)" and
    idx: "sample_idx (fst ps3) = ?N" and
    out: "out = \<lparr>final = (fst ps3)\<lparr>sample_infos := infos\<rparr>, tri_sample_counts = snd ps3,
            tri_areas = areas\<rparr>"
    by blast
  have z: "\<forall>u. 0 \<le> u \<and> u < ?T \<longrightarrow> snd (start ao w, replicate ?T (0::nat)) ! u = 0" by simp
  from place_min_effect [OF r1 placed_start z] have
    p1: "placed ?T offset ps1" and c1: "\<And>u. u < ?T \<Longrightarrow> snd ps1 ! u = m" and
    k1: "calls (fst ps1) = map (\<lambda>u. (u, 0, m, u * m)) [0..<?T]"
    by (simp_all add: start_simps)
  from place_by_area_effect [OF r2 p1] have
    p2: "placed ?T offset ps2" and c2: "\<And>u. u < ?T \<Longrightarrow> snd ps1 ! u \<le> snd ps2 ! u" and
    k2: "\<exists>xs. calls (fst ps2) = calls (fst ps1) @ xs"
    by simp_all
  from place_rest_effect [OF r3 p2] have
    p3: "placed ?T offset ps3" and c3: "\<And>u. u < ?T \<Longrightarrow> snd ps2 ! u \<le> snd ps3 ! u" and
    k3: "\<exists>xs. calls (fst ps3) = calls (fst ps2) @ xs"
    by simp_all
  from dA_loop_effect [OF r4] have
    s: "same_samples (sample_infos (fst ps3)) infos" and pos: "\<And>u. u < ?T \<Longrightarrow> 0 < snd ps3 ! u"
    by simp_all
  from p3 have "content_ok offset (calls (fst ps3)) (sample_infos (fst ps3))"
    by (simp add: placed_def)
  from content_ok_same [OF this s] p3
  show "placed ?T offset (final out, tri_sample_counts out)"
    by (simp add: out placed_def)
  show "m \<le> tri_sample_counts out ! u" if "u < ?T" for u
    using c1 [OF that] c2 [OF that] c3 [OF that] by (simp add: out)
  show "0 < tri_sample_counts out ! u" if "u < ?T" for u
    using pos [OF that] by (simp add: out)
  show "sample_idx (final out) = ?N" using idx by (simp add: out)
  from k1 k2 k3 show "\<exists>xs. calls (final out) = map (\<lambda>u. (u, 0, m, u * m)) [0..<?T] @ xs"
    by (auto simp: out)
  show "?T * m \<le> ?N" by (rule pre)
  from area_loop_effect [OF ra] show "length (tri_areas out) = ?T"
    and "\<And>u. u < ?T \<Longrightarrow> tri_areas out ! u = tri_area mesh u"
    by (simp_all add: out)
qed

lemma mesh_ok_tri: "mesh_ok mesh \<Longrightarrow> t < num_triangles mesh \<Longrightarrow> tri_ok mesh t"
  by (simp add: mesh_ok_def list_all_iff)

lemma place_min_success:
  "mesh_ok mesh \<Longrightarrow> offsets_ok offset \<Longrightarrow>
   sample_idx (fst ps) + (num_triangles mesh - t) * m \<le> room (fst ps) \<Longrightarrow>
   \<exists>ps'. place_min mesh offset m t ps = Inr ps'"
proof (induction mesh offset m t ps rule: place_min.induct)
  case (1 mesh offset m t ps)
  let ?T = "num_triangles mesh"
  show ?case
  proof (cases "t < ?T")
    case False
    then show ?thesis by (simp add: place_min.simps)
  next
    case True
    then obtain d where d: "?T - t = Suc d" by (metis Suc_diff_Suc)
    with "1.prems"(3) have "sample_idx (fst ps) + (m - 0) \<le> room (fst ps)" by simp
    from sample_triangle_success [OF mesh_ok_tri [OF "1.prems"(1) True] "1.prems"(2) this]
    obtain st1 where run: "sample_triangle mesh offset t 0 m (fst ps) = Inr st1" by blast
    from sample_triangle_effect [OF run] have
      e: "sample_idx st1 = sample_idx (fst ps) + m" "same_lengths (fst ps) st1" by auto
    from d have "?T - (t + 1) = d" by simp
    with "1.prems"(3) d e(1) same_lengths_room [OF e(2)] have
      "sample_idx (fst (st1, (snd ps)[t := snd ps ! t + m])) + (?T - (t + 1)) * m
         \<le> room (fst (st1, (snd ps)[t := snd ps ! t + m]))"
      by simp
    from "1.IH" [OF True run "1.prems"(1,2) this] True run show ?thesis
      by (subst place_min.simps) simp
  qed
qed

lemma area_share_value:
  assumes "0 < mesh_area" "0 \<le> area" "area \<le> mesh_area" "nms < 2 ^ 64"
  shows "area_share nms area mesh_area = Inr (nat \<lfloor>real nms * area / mesh_area\<rfloor>)"
proof -
  let ?q = "real nms * area / mesh_area"
  from assms have q0: "0 \<le> ?q" by simp
  from assms have "area / mesh_area \<le> 1" by simp
  then have "real nms * (area / mesh_area) \<le> real nms * 1"
    by (intro mult_left_mono) simp_all
  then have "?q \<le> real nms" by simp
  also from assms(4) have "real nms < 2 ^ 64"
    by (metis of_nat_less_iff of_nat_numeral of_nat_power)
  finally have "?q < 2 ^ 64" .
  with q0 assms(1) show ?thesis by (simp add: area_share_def Let_def)
qed

lemma place_by_area_success:
  "mesh_ok mesh \<Longrightarrow> offsets_ok offset \<Longrightarrow> 0 < mesh_area \<Longrightarrow>
   (\<forall>u < num_triangles mesh. 0 \<le> areas ! u) \<Longrightarrow> nms < 2 ^ 64 \<Longrightarrow>
   t \<le> num_triangles mesh \<Longrightarrow>
   sum_list (map ((!) areas) [t..<num_triangles mesh]) \<le> mesh_area \<Longrightarrow>
   sample_idx (fst ps) \<le> n \<Longrightarrow> n \<le> room (fst ps) \<Longrightarrow>
   real (n - sample_idx (fst ps))
     \<le> real nms * sum_list (map ((!) areas) [t..<num_triangles mesh]) / mesh_area + real t \<Longrightarrow>
   \<exists>ps'. place_by_area mesh offset n nms areas mesh_area t ps = Inr ps' \<and>
         sample_idx (fst ps') \<le> n \<and> n - sample_idx (fst ps') \<le> num_triangles mesh"
proof (induction mesh offset n nms areas mesh_area t ps rule: place_by_area.induct)
  case (1 mesh offset n nms areas mesh_area t ps)
  let ?T = "num_triangles mesh"
  let ?S = "\<lambda>t. sum_list (map ((!) areas) [t..<?T])"
  show ?case
  proof (cases "t < ?T \<and> sample_idx (fst ps) < n")
    case False
    have "n - sample_idx (fst ps) \<le> ?T"
    proof (cases "t < ?T")
      case True
      with False show ?thesis by simp
    next
      case nt: False
      with "1.prems"(6) have "t = ?T" by simp
      with "1.prems"(10) have "real (n - sample_idx (fst ps)) \<le> real ?T" by simp
      then show ?thesis by simp
    qed
    moreover from False have "place_by_area mesh offset n nms areas mesh_area t ps = Inr ps"
      by (subst place_by_area.simps) auto
    ultimately show ?thesis using "1.prems"(8) by simp
  next
    case True
    then have t: "t < ?T" and lt: "sample_idx (fst ps) < n" by simp_all
    have up: "[t..<?T] = t # [t + 1..<?T]" using t by (simp add: upt_conv_Cons)
    have nn: "0 \<le> ?S (t + 1)"
      using "1.prems"(4) by (intro sum_list_nonneg) auto
    from "1.prems"(4) t have a0: "0 \<le> areas ! t" by simp
    have S: "?S t = areas ! t + ?S (t + 1)" by (simp add: up)
    with nn "1.prems"(7) have aA: "areas ! t \<le> mesh_area" by simp
    let ?q = "nat \<lfloor>real nms * (areas ! t) / mesh_area\<rfloor>"
    from area_share_value [OF "1.prems"(3) a0 aA "1.prems"(5)] have
      q: "area_share nms (areas ! t) mesh_area = Inr ?q" .
    let ?k = "min (n - sample_idx (fst ps)) ?q"
    have "sample_idx (fst ps) + (snd ps ! t + ?k - snd ps ! t) \<le> room (fst ps)"
      using "1.prems"(8,9) by simp
    from sample_triangle_success [OF mesh_ok_tri [OF "1.prems"(1) t] "1.prems"(2) this]
    obtain st1 where
      run: "sample_triangle mesh offset t (snd ps ! t) (snd ps ! t + ?k) (fst ps) = Inr st1"
      by blast
    from sample_triangle_effect [OF run] have
      e: "sample_idx st1 = sample_idx (fst ps) + ?k" "same_lengths (fst ps) st1" by auto
    let ?ps1 = "(st1, (snd ps)[t := snd ps ! t + ?k])"
    have i8: "sample_idx (fst ?ps1) \<le> n" using e(1) "1.prems"(8) by simp
    have i9: "n \<le> room (fst ?ps1)" using "1.prems"(9) same_lengths_room [OF e(2)] by simp
    have i7: "?S (t + 1) \<le> mesh_area" using S a0 "1.prems"(7) by simp
    have i6: "t + 1 \<le> ?T" using t by simp
    have q0: "0 \<le> real nms * (areas ! t) / mesh_area"
      using a0 "1.prems"(3) by simp
    have i10: "real (n - sample_idx (fst ?ps1))
                 \<le> real nms * ?S (t + 1) / mesh_area + real (t + 1)"
    proof (cases "n - sample_idx (fst ps) \<le> ?q")
      case True
      then have "n - sample_idx (fst ?ps1) = 0" using e(1) by simp
      moreover have "0 \<le> real nms * ?S (t + 1) / mesh_area"
        using nn "1.prems"(3) by simp
      ultimately show ?thesis by simp
    next
      case False
      then have k: "?k = ?q" by simp
      have "real nms * (areas ! t) / mesh_area < real_of_int \<lfloor>real nms * (areas ! t) / mesh_area\<rfloor> + 1"
        by linarith
      moreover have "real ?q = real_of_int \<lfloor>real nms * (areas ! t) / mesh_area\<rfloor>"
        using q0 by simp
      ultimately have fl: "real nms * (areas ! t) / mesh_area - 1 < real ?q" by simp
      from False have "?q \<le> n - sample_idx (fst ps)" by simp
      then have "real (n - sample_idx (fst ?ps1)) = real (n - sample_idx (fst ps)) - real ?q"
        using e(1) k by simp
      also have "\<dots> < real (n - sample_idx (fst ps)) - real nms * (areas ! t) / mesh_area + 1"
        using fl by simp
      also have "\<dots> \<le> real nms * ?S t / mesh_area + real t - real nms * (areas ! t) / mesh_area + 1"
        using "1.prems"(10) by simp
      also have "\<dots> = real nms * ?S (t + 1) / mesh_area + real (t + 1)"
        by (simp add: S algebra_simps add_divide_distrib)
      finally show ?thesis by simp
    qed
    from "1.IH" [OF True q refl run "1.prems"(1-5) i6 i7 i8 i9 i10]
    obtain ps' where
      "place_by_area mesh offset n nms areas mesh_area (t + 1) ?ps1 = Inr ps'"
      "sample_idx (fst ps') \<le> n" "n - sample_idx (fst ps') \<le> ?T"
      by blast
    with True q run show ?thesis
      by (subst place_by_area.simps) (simp add: Let_def)
  qed
qed

lemma place_rest_success:
  "mesh_ok mesh \<Longrightarrow> offsets_ok offset \<Longrightarrow>
   sample_idx (fst ps) \<le> n \<Longrightarrow> n \<le> room (fst ps) \<Longrightarrow> t \<le> num_triangles mesh \<Longrightarrow>
   n - sample_idx (fst ps) \<le> num_triangles mesh - t \<Longrightarrow>
   \<exists>ps'. place_rest mesh offset n t ps = Inr ps' \<and> sample_idx (fst ps') = n"
proof (induction mesh offset n t ps rule: place_rest.induct)
  case (1 mesh offset n t ps)
  let ?T = "num_triangles mesh"
  show ?case
  proof (cases "t < ?T \<and> sample_idx (fst ps) < n")
    case False
    with "1.prems"(3,5,6) have "sample_idx (fst ps) = n" by auto
    moreover from False have "place_rest mesh offset n t ps = Inr ps"
      by (subst place_rest.simps) auto
    ultimately show ?thesis by simp
  next
    case True
    then have t: "t < ?T" and lt: "sample_idx (fst ps) < n" by simp_all
    have "sample_idx (fst ps) + (snd ps ! t + 1 - snd ps ! t) \<le> room (fst ps)"
      using lt "1.prems"(4) by simp
    from sample_triangle_success [OF mesh_ok_tri [OF "1.prems"(1) t] "1.prems"(2) this]
    obtain st1 where
      run: "sample_triangle mesh offset t (snd ps ! t) (snd ps ! t + 1) (fst ps) = Inr st1"
      by blast
    from sample_triangle_effect [OF run] have
      e: "sample_idx st1 = sample_idx (fst ps) + 1" "same_lengths (fst ps) st1" by auto
    let ?ps1 = "(st1, (snd ps)[t := snd ps ! t + 1])"
    have a: "sample_idx (fst ?ps1) \<le> n" using e(1) lt by simp
    have b: "n \<le> room (fst ?ps1)" using "1.prems"(4) same_lengths_room [OF e(2)] by simp
    have c: "t + 1 \<le> ?T" using t by simp
    have d: "n - sample_idx (fst ?ps1) \<le> ?T - (t + 1)" using e(1) "1.prems"(6) by simp
    from "1.IH" [OF True run "1.prems"(1,2) a b c d] obtain ps' where
      "place_rest mesh offset n (t + 1) ?ps1 = Inr ps'" "sample_idx (fst ps') = n" by blast
    with True run show ?thesis
      by (subst place_rest.simps) simp
  qed
qed

lemma triangle_area_nonneg: "0 \<le> triangle_area v0 v1 v2"
  by (simp add: triangle_area_def Let_def split: prod.splits)

lemma tri_area_nonneg: "0 \<le> tri_area mesh t"
  by (simp add: tri_area_def triangle_area_nonneg split: prod.splits)

lemma area_loop_success:
  "mesh_ok mesh \<Longrightarrow> \<exists>acc'. area_loop mesh t acc = Inr acc'"
proof (induction mesh t acc rule: area_loop.induct)
  case (1 mesh t acc)
  let ?T = "num_triangles mesh"
  show ?case
  proof (cases "t < ?T")
    case False
    then show ?thesis by (simp add: area_loop.simps)
  next
    case True
    from mesh_ok_tri [OF "1.prems" True] have ok: "tri_ok mesh t" .
    obtain a b c where abc: "tri_vertex_indices mesh ! t = (a, b, c)"
      by (cases "tri_vertex_indices mesh ! t")
    from ok abc have v: "index_ok (vertices mesh) a" "index_ok (vertices mesh) b"
      "index_ok (vertices mesh) c" and tl: "t < length (tri_vertex_indices mesh)"
      by (simp_all add: tri_ok_def int3_ok_def)
    have f: "fetch (tri_vertex_indices mesh) (int t) = Inr (a, b, c)"
      using fetch_nat_ok [OF tl] abc by simp
    let ?area = "triangle_area (vertices mesh ! nat a) (vertices mesh ! nat b) (vertices mesh ! nat c)"
    from "1.IH" [OF True f refl refl fetch_ok [OF v(1)] fetch_ok [OF v(2)] fetch_ok [OF v(3)] refl "1.prems"]
    obtain acc' where
      "area_loop mesh (t + 1) ((fst acc)[t := ?area], snd acc + ?area) = Inr acc'" by blast
    with True f show ?thesis
      by (subst area_loop.simps) (simp add: fetch_ok [OF v(1)] fetch_ok [OF v(2)] fetch_ok [OF v(3)] Let_def)
  qed
qed

lemma room_start: "room (start ao w) =
  min (min (length (sample_infos ao)) (length (sample_positions ao)))
      (min (length (sample_normals ao)) (length (sample_face_normals ao)))"
  by (simp add: room_def start_simps)

lemma room_le_infos: "n \<le> room st \<Longrightarrow> n \<le> length (sample_infos st)"
  by (simp add: room_def)

lemma nth_all_eq_replicate:
  "length xs = n \<Longrightarrow> (\<And>u. u < n \<Longrightarrow> xs ! u = a) \<Longrightarrow> xs = replicate n a"
  by (rule nth_equalityI) simp_all

lemma area_sampling_success:
  assumes ok: "run_ok mesh m ao offset"
    and budget: "num_samples ao = num_triangles mesh * m \<or>
                 (0 < num_triangles mesh \<and> 0 < total_area mesh)"
  shows "\<exists>ps2 areas. area_sampling mesh m ao offset w = Inr (ps2, areas) \<and>
           placed (num_triangles mesh) offset ps2 \<and>
           sample_idx (fst ps2) \<le> num_samples ao \<and>
           num_samples ao - sample_idx (fst ps2) \<le> num_triangles mesh \<and>
           room (fst ps2) = room (start ao w) \<and>
           (\<forall>u < num_triangles mesh. m \<le> snd ps2 ! u)"
proof -
  let ?T = "num_triangles mesh" and ?N = "num_samples ao"
  let ?st0 = "start ao w"
  from ok have mo: "mesh_ok mesh" and oo: "offsets_ok offset" and nv: "num_vertices mesh \<noteq> 0"
    and pre: "?T * m \<le> ?N" and n64: "?N < 2 ^ 64" and rm: "?N \<le> room ?st0"
    by (simp_all add: run_ok_def room_start)
  have "sample_idx (fst (?st0, replicate ?T (0::nat))) + (?T - 0) * m
          \<le> room (fst (?st0, replicate ?T (0::nat)))"
    using pre rm by (simp add: start_simps)
  from place_min_success [OF mo oo this] obtain ps1 where
    r1: "place_min mesh offset m 0 (?st0, replicate ?T 0) = Inr ps1" by blast
  have z: "\<forall>u. 0 \<le> u \<and> u < ?T \<longrightarrow> snd (?st0, replicate ?T (0::nat)) ! u = 0" by simp
  from place_min_effect [OF r1 placed_start z] have
    p1: "placed ?T offset ps1" and c1: "\<And>u. u < ?T \<Longrightarrow> snd ps1 ! u = m" and
    l1: "same_lengths ?st0 (fst ps1)"
    by simp_all
  from p1 have len1: "length (snd ps1) = ?T" and s1: "sample_idx (fst ps1) = sum_list (snd ps1)"
    by (simp_all add: placed_def)
  from nth_all_eq_replicate [OF len1 c1] have "snd ps1 = replicate ?T m" by simp
  with s1 have idx1: "sample_idx (fst ps1) = ?T * m" by (simp add: sum_list_replicate)
  from same_lengths_room [OF l1] have room1: "room (fst ps1) = room ?st0" .
  from area_loop_success [OF mo] obtain acc where
    ra0: "area_loop mesh 0 (replicate ?T 0, 0) = Inr acc" by blast
  obtain areas mesh_area where acc: "acc = (areas, mesh_area)" by (cases acc)
  from ra0 acc have ra: "area_loop mesh 0 (replicate ?T 0, 0) = Inr (areas, mesh_area)" by simp
  from area_loop_effect [OF ra] have
    al: "length areas = ?T" and av: "\<And>u. u < ?T \<Longrightarrow> areas ! u = tri_area mesh u" and
    ma: "mesh_area = total_area mesh"
    by (simp_all add: total_area_def)
  have "\<exists>ps2. place_by_area mesh offset ?N (?N - sample_idx (fst ps1)) areas mesh_area 0 ps1 = Inr ps2
          \<and> sample_idx (fst ps2) \<le> ?N \<and> ?N - sample_idx (fst ps2) \<le> ?T"
  proof (cases "?N = ?T * m")
    case True
    with idx1 have "place_by_area mesh offset ?N (?N - sample_idx (fst ps1)) areas mesh_area 0 ps1
                      = Inr ps1"
      by (subst place_by_area.simps) simp
    with True idx1 show ?thesis by simp
  next
    case False
    with budget have tp: "0 < ?T" and ap: "0 < mesh_area" by (simp_all add: ma)
    have nn: "\<forall>u < ?T. 0 \<le> areas ! u" using av tri_area_nonneg by simp
    have eq: "map ((!) areas) [0..<?T] = map (tri_area mesh) [0..<?T]"
      using av by (intro map_cong) simp_all
    have sm: "sum_list (map ((!) areas) [0..<?T]) = mesh_area"
      unfolding eq ma total_area_def by (rule refl)
    have a: "?N - sample_idx (fst ps1) < 2 ^ 64" using n64 by simp
    have b: "sum_list (map ((!) areas) [0..<?T]) \<le> mesh_area" using sm by simp
    have c: "sample_idx (fst ps1) \<le> ?N" using idx1 pre by simp
    have d: "?N \<le> room (fst ps1)" using rm room1 by simp
    have e: "real (?N - sample_idx (fst ps1))
               \<le> real (?N - sample_idx (fst ps1)) * sum_list (map ((!) areas) [0..<?T]) / mesh_area
                  + real (0::nat)"
      using ap by (simp add: sm)
    from place_by_area_success [OF mo oo ap nn a _ b c d e] show ?thesis by simp
  qed
  then obtain ps2 where
    r2: "place_by_area mesh offset ?N (?N - sample_idx (fst ps1)) areas mesh_area 0 ps1 = Inr ps2"
    and i2: "sample_idx (fst ps2) \<le> ?N" "?N - sample_idx (fst ps2) \<le> ?T"
    by blast
  from place_by_area_effect [OF r2 p1] have
    p2: "placed ?T offset ps2" and c2: "\<And>u. u < ?T \<Longrightarrow> snd ps1 ! u \<le> snd ps2 ! u" and
    l2: "same_lengths (fst ps1) (fst ps2)"
    by simp_all
  have "area_sampling mesh m ao offset w = Inr (ps2, areas)"
    unfolding area_sampling_def Let_def start_eq using pre nv r1 ra r2 by simp
  moreover have "room (fst ps2) = room ?st0"
    using same_lengths_room [OF l2] room1 by simp
  moreover have "\<forall>u < ?T. m \<le> snd ps2 ! u" using c1 c2 by (metis)
  ultimately show ?thesis using p2 i2 by blast
qed

lemma run_success:
  assumes ok: "run_ok mesh m ao offset" and m1: "1 \<le> m"
    and budget: "num_samples ao = num_triangles mesh * m \<or>
                 (0 < num_triangles mesh \<and> 0 < total_area mesh)"
  shows "\<exists>out. sample_surface_random mesh m ao offset w = Inr out"
proof -
  let ?T = "num_triangles mesh" and ?N = "num_samples ao"
  from ok have mo: "mesh_ok mesh" and oo: "offsets_ok offset"
    and rm: "?N \<le> room (start ao w)"
    by (simp_all add: run_ok_def room_start)
  from area_sampling_success [OF ok budget, of w] obtain ps2 areas where
    r12: "area_sampling mesh m ao offset w = Inr (ps2, areas)" and
    p2: "placed ?T offset ps2" and i2: "sample_idx (fst ps2) \<le> ?N" "?N - sample_idx (fst ps2) \<le> ?T"
    and room2: "room (fst ps2) = room (start ao w)" and c2: "\<And>u. u < ?T \<Longrightarrow> m \<le> snd ps2 ! u"
    by blast
  have "?N \<le> room (fst ps2)" using rm room2 by simp
  from place_rest_success [OF mo oo i2(1) this, of 0] i2(2) obtain ps3 where
    r3: "place_rest mesh offset ?N 0 ps2 = Inr ps3" and i3: "sample_idx (fst ps3) = ?N"
    by auto
  from place_rest_effect [OF r3 p2] have
    p3: "placed ?T offset ps3" and c3: "\<And>u. u < ?T \<Longrightarrow> snd ps2 ! u \<le> snd ps3 ! u" and
    l3: "same_lengths (fst ps2) (fst ps3)"
    by simp_all
  from p3 have len3: "length (snd ps3) = ?T" and s3: "sample_idx (fst ps3) = sum_list (snd ps3)"
    by (simp_all add: placed_def)
  have pos: "\<forall>u. 0 \<le> u \<and> u < ?T \<longrightarrow> 0 < snd ps3 ! u"
  proof (intro allI impI)
    fix u assume "0 \<le> u \<and> u < ?T"
    then have "u < ?T" by simp
    from c2 [OF this] c3 [OF this] m1 show "0 < snd ps3 ! u" by simp
  qed
  have "map ((!) (snd ps3)) [0..<?T] = snd ps3" using len3 map_nth [of "snd ps3"] by simp
  then have "sum_list (map (\<lambda>u. snd ps3 ! u) [0..<?T]) = ?N" using s3 i3 by simp
  moreover have "?N \<le> room (fst ps3)"
    using rm room2 same_lengths_room [OF l3] by simp
  then have "?N \<le> length (sample_infos (fst ps3))" by (rule room_le_infos)
  ultimately have "snd (sample_infos (fst ps3), 0::nat) + sum_list (map (\<lambda>u. snd ps3 ! u) [0..<?T])
          \<le> length (fst (sample_infos (fst ps3), 0::nat))" by simp
  from dA_loop_success [OF pos this] obtain ik where
    r4: "dA_loop ?T areas (snd ps3) 0 (sample_infos (fst ps3), 0) = Inr ik" by blast
  obtain infos k where ik: "ik = (infos, k)" by (cases ik)
  show ?thesis
    unfolding sample_surface_random_def Let_def using r12 i2(2) r3 r4 i3 ik by simp
qed

section \<open>The statements about sample\_surface\_random\<close>

lemma blank_simps:
  "num_samples (blank n) = n" "length (sample_positions (blank n)) = n"
  "length (sample_normals (blank n)) = n" "length (sample_face_normals (blank n)) = n"
  "length (sample_infos (blank n)) = n"
  by (simp_all add: blank_def)

lemma upt_0_2: "[0..<2] = [0, 1]"
  by (simp add: upt_conv_Cons)

lemma mesh_ok_square: "mesh_ok square_mesh"
  by (simp add: mesh_ok_def square_mesh_def upt_0_2 tri_ok_def int3_ok_def index_ok_def)

lemma tri_area_square: "tri_area square_mesh 0 = 1 / 2" "tri_area square_mesh 1 = 1 / 2"
  by (simp_all add: tri_area_def square_mesh_def triangle_area_def vsub_def cross_def)

lemma num_triangles_square: "num_triangles square_mesh = 2"
  by (simp add: square_mesh_def)

lemma total_area_square: "total_area square_mesh = 1"
  using tri_area_square by (simp add: total_area_def num_triangles_square upt_0_2)

lemma run_ok_square: "run_ok square_mesh 1 (blank 3) zero_offset"
  by (simp add: run_ok_def mesh_ok_square offsets_ok_zero blank_simps num_triangles_square)
     (simp add: square_mesh_def)

lemma budget_square:
  "num_samples (blank 3) = num_triangles square_mesh * 1 \<or>
   (0 < num_triangles square_mesh \<and> 0 < total_area square_mesh)"
  by (simp add: num_triangles_square total_area_square)

lemma run_square:
  "\<exists>out. sample_surface_random square_mesh 1 (blank 3) zero_offset (False, []) = Inr out"
  by (rule run_success [OF run_ok_square order_refl budget_square])

text \<open>
  Claim C4. When \<open>sample_surface_random\<close> returns, the first calls of \<open>sample_triangle\<close>
  it made are one call per triangle, in the order of the triangles, each with the
  index range \<open>[0, min_samples_per_triangle)\<close> (the call for triangle \<open>t\<close> starts at
  slot \<open>t * min_samples_per_triangle\<close>), and the final count of every triangle is at
  least \<open>min_samples_per_triangle\<close>.
\<close>

theorem min_samples_floor:
  "sample_surface_random mesh m ao offset w = Inr out \<Longrightarrow>
     take (num_triangles mesh) (calls (final out)) =
       map (\<lambda>t. (t, 0, m, t * m)) [0..<num_triangles mesh] \<and>
     (\<forall>t < num_triangles mesh. m \<le> tri_sample_counts out ! t)"
proof -
  assume run: "sample_surface_random mesh m ao offset w = Inr out"
  from run_placed(5) [OF run] obtain xs where
    "calls (final out) = map (\<lambda>u. (u, 0, m, u * m)) [0..<num_triangles mesh] @ xs" by blast
  then have "take (num_triangles mesh) (calls (final out)) =
       map (\<lambda>t. (t, 0, m, t * m)) [0..<num_triangles mesh]" by simp
  with run_placed(2) [OF run] show ?thesis by simp
qed

theorem min_samples_floor_witness:
  "\<not> isl (sample_surface_random square_mesh 1 (blank 3) zero_offset (False, [])) \<and>
   take 2 (calls (final (projr
     (sample_surface_random square_mesh 1 (blank 3) zero_offset (False, []))))) =
     [(0, 0, 1, 0), (1, 0, 1, 1)] \<and>
   1 \<le> tri_sample_counts (projr
     (sample_surface_random square_mesh 1 (blank 3) zero_offset (False, []))) ! 0 \<and>
   1 \<le> tri_sample_counts (projr
     (sample_surface_random square_mesh 1 (blank 3) zero_offset (False, []))) ! 1"
proof -
  from run_square obtain out where
    run: "sample_surface_random square_mesh 1 (blank 3) zero_offset (False, []) = Inr out"
    by blast
  from min_samples_floor [OF run] run show ?thesis
    by (simp add: num_triangles_square upt_0_2)
qed








lemma halton_index_small: "k + 1 < 2 ^ 32 \<Longrightarrow> halton_index k = k + 1"
  by (simp add: halton_index_def u32_def)

text \<open>
  Claim C9, as the code has it. When \<open>sample_surface_random\<close> returns, the index ranges
  passed to \<open>sample_triangle\<close> for a triangle \<open>t\<close>, one after the other in the order of the
  calls, are exactly \<open>0, 1, ..., count t - 1\<close>: contiguous, without overlap, starting at 0.
  Every sample of every call holds the index of its triangle (as cast to \<^verbatim>\<open>unsigned\<close>)
  and the barycentric coordinates of the Halton point of its index, shifted by the
  offset of the triangle; the argument of \<^verbatim>\<open>halton\<close> for the index \<open>k\<close> is
  \<^verbatim>\<open>(unsigned)k + 1\<close>, which is \<open>k + 1\<close> as long as \<open>k + 1 < 2^32\<close>.
\<close>

theorem sample_index_ranges:
  "sample_surface_random mesh m ao offset w = Inr out \<Longrightarrow> t < num_triangles mesh \<Longrightarrow>
     ranges_of t (calls (final out)) = [0..<tri_sample_counts out ! t] \<and>
     content_ok offset (calls (final out)) (sample_infos (final out)) \<and>
     (\<forall>k. k + 1 < 2 ^ 32 \<longrightarrow> halton_index k = k + 1)"
proof -
  assume run: "sample_surface_random mesh m ao offset w = Inr out" and t: "t < num_triangles mesh"
  from run_placed(1) [OF run] t have
    "ranges_of t (calls (final out)) = [0..<tri_sample_counts out ! t]"
    "content_ok offset (calls (final out)) (sample_infos (final out))"
    by (simp_all add: placed_def)
  then show ?thesis by (simp add: halton_index_small)
qed

theorem sample_index_ranges_witness:
  "\<not> isl (sample_surface_random square_mesh 1 (blank 3) zero_offset (False, [])) \<and>
   ranges_of 0 (calls (final (projr
     (sample_surface_random square_mesh 1 (blank 3) zero_offset (False, []))))) =
     [0..<tri_sample_counts (projr
       (sample_surface_random square_mesh 1 (blank 3) zero_offset (False, []))) ! 0] \<and>
   content_ok zero_offset
     (calls (final (projr
       (sample_surface_random square_mesh 1 (blank 3) zero_offset (False, [])))))
     (sample_infos (final (projr
       (sample_surface_random square_mesh 1 (blank 3) zero_offset (False, []))))) \<and>
   halton_index 5 = 6"
proof -
  from run_square obtain out where
    run: "sample_surface_random square_mesh 1 (blank 3) zero_offset (False, []) = Inr out"
    by blast
  have t: "0 < num_triangles square_mesh" by (simp add: num_triangles_square)
  from sample_index_ranges [OF run t] run show ?thesis by simp
qed

lemma shifted_halton_wrap: "2 \<le> base \<Longrightarrow> shifted_halton base 0 4294967295 = Inr 0"
proof -
  assume "2 \<le> base"
  have i: "halton_index 4294967295 = 0" by (simp add: halton_index_def u32_def)
  have h: "halton base 0 = Some 0" by (simp add: halton_def halton_loop.simps)
  show ?thesis by (simp add: shifted_halton_def i h float_to_int_def)
qed

lemma mesh_ok_right: "mesh_ok right_triangle_mesh"
proof -
  have "num_triangles right_triangle_mesh = 1" by (simp add: right_triangle_mesh_def)
  then show ?thesis by (simp add: mesh_ok_def tri_ok_right)
qed

text \<open>
  On one triangle with \<open>2^32\<close> samples, the sample of index \<open>2^32 - 1\<close> is generated from
  the Halton argument 0, not \<open>2^32\<close>: with the offset \<open>(0, 0)\<close> it is the image of the point
  \<open>(0, 0)\<close> of the unit square.
\<close>

theorem halton_index_wraps:
  "\<not> isl (sample_surface_random right_triangle_mesh 4294967296 (blank 4294967296) zero_offset
          (False, [])) \<and>
   ranges_of 0 (calls (final (projr
     (sample_surface_random right_triangle_mesh 4294967296 (blank 4294967296) zero_offset
        (False, []))))) = [0..<4294967296] \<and>
   halton_index 4294967295 = 0 \<and>
   bary (sample_infos (final (projr
     (sample_surface_random right_triangle_mesh 4294967296 (blank 4294967296) zero_offset
        (False, [])))) ! 4294967295) = map_to_triangle 0 0"
proof -
  let ?m = "4294967296 :: nat"
  have T: "num_triangles right_triangle_mesh = 1" by (simp add: right_triangle_mesh_def)
  have nv: "num_vertices right_triangle_mesh \<noteq> 0" by (simp add: right_triangle_mesh_def)
  have ok: "run_ok right_triangle_mesh ?m (blank ?m) zero_offset"
    unfolding run_ok_def blank_simps T using mesh_ok_right offsets_ok_zero nv by simp
  have budget: "num_samples (blank ?m) = num_triangles right_triangle_mesh * ?m \<or>
      (0 < num_triangles right_triangle_mesh \<and> 0 < total_area right_triangle_mesh)"
    unfolding blank_simps T by simp
  have m1: "1 \<le> ?m" by simp
  from run_success [OF ok m1 budget, of "(False, [])"] obtain out where
    run: "sample_surface_random right_triangle_mesh ?m (blank ?m) zero_offset (False, []) = Inr out"
    by blast
  from run_placed(1) [OF run] have
    len: "length (tri_sample_counts out) = 1" and
    sm: "sample_idx (final out) = sum_list (tri_sample_counts out)" and
    rg: "ranges_of 0 (calls (final out)) = [0..<tri_sample_counts out ! 0]" and
    co: "content_ok zero_offset (calls (final out)) (sample_infos (final out))"
    unfolding placed_def fst_conv snd_conv T by simp_all
  from len obtain c where c: "tri_sample_counts out = [c]"
    by (cases "tri_sample_counts out") simp_all
  from run_placed(4) [OF run] sm c have cnt: "tri_sample_counts out ! 0 = ?m"
    unfolding blank_simps by simp
  from run_placed(5) [OF run] obtain xs where
    "calls (final out) = map (\<lambda>u. (u, 0, ?m, u * ?m)) [0..<1] @ xs"
    unfolding T by blast
  then have mem: "(0, 0, ?m, 0) \<in> set (calls (final out))" by simp
  have j: "(4294967295::nat) < ?m - 0" by simp
  from co mem j have "written_from zero_offset 0 (0 + 4294967295)
      (sample_infos (final out) ! (0 + 4294967295))"
    unfolding content_ok_def by blast
  then have b: "bary (sample_infos (final out) ! 4294967295) = map_to_triangle 0 0"
    unfolding written_from_def by (simp add: zero_offset_def shifted_halton_wrap)
  have i: "halton_index 4294967295 = 0" by (simp add: halton_index_def u32_def)
  from run rg cnt b i show ?thesis by simp
qed

lemma total_area_flat: "total_area flat_mesh = 0"
proof -
  have T: "num_triangles flat_mesh = 1" by (simp add: flat_mesh_def)
  have "tri_area flat_mesh 0 = 0"
    by (simp add: tri_area_def flat_mesh_def triangle_area_def vsub_def cross_def)
  then show ?thesis by (simp add: total_area_def T)
qed

text \<open>
  The condition on the total area in the statements of Claims C2 and C3 is needed. When the
  triangles of the mesh have a total area of zero and the number of samples exceeds the
  minimum, the first pass of the loop of lines 177 to 184 divides by \<^verbatim>\<open>mesh_area = 0\<close> and
  converts the quotient to \<^verbatim>\<open>size_t\<close>: the run ends there.
\<close>

lemma zero_area_surplus_fails:
  assumes ok: "run_ok mesh m ao offset" and T: "0 < num_triangles mesh"
    and area: "total_area mesh = 0" and surplus: "num_triangles mesh * m < num_samples ao"
  shows "sample_surface_random mesh m ao offset w = Inl UndefinedCast"
proof -
  let ?T = "num_triangles mesh" and ?N = "num_samples ao"
  from ok have mk: "mesh_ok mesh" and off: "offsets_ok offset" and nv: "num_vertices mesh \<noteq> 0"
    and pre: "?T * m \<le> ?N"
    by (simp_all add: run_ok_def)
  have rm: "sample_idx (fst (start ao w, replicate ?T (0::nat))) + (?T - 0) * m
            \<le> room (fst (start ao w, replicate ?T (0::nat)))"
    using ok by (simp add: room_start run_ok_def start_simps)
  from place_min_success [OF mk off rm] obtain ps1 where
    r1: "place_min mesh offset m 0 (start ao w, replicate ?T 0) = Inr ps1" by blast
  have z: "\<forall>u. 0 \<le> u \<and> u < ?T \<longrightarrow> snd (start ao w, replicate ?T (0::nat)) ! u = 0" by simp
  from place_min_effect [OF r1 placed_start z] have
    p1: "placed ?T offset ps1" and c1: "\<And>u. u < ?T \<Longrightarrow> snd ps1 ! u = m"
    by simp_all
  from p1 have len1: "length (snd ps1) = ?T" and s1: "sample_idx (fst ps1) = sum_list (snd ps1)"
    by (simp_all add: placed_def)
  from nth_all_eq_replicate [OF len1 c1] have cs1: "snd ps1 = replicate ?T m" by simp
  with s1 have idx1: "sample_idx (fst ps1) = ?T * m" by (simp add: sum_list_replicate)
  from area_loop_success [OF mk] obtain acc where
    ra: "area_loop mesh 0 (replicate ?T 0, 0) = Inr acc" by blast
  obtain areas mesh_area where acc: "acc = (areas, mesh_area)" by (cases acc)
  from area_loop_effect [OF ra] have "mesh_area = total_area mesh"
    by (simp add: total_area_def acc)
  with area have ma: "mesh_area = 0" by simp
  have r2: "place_by_area mesh offset ?N (?N - sample_idx (fst ps1)) areas mesh_area 0 ps1
            = Inl UndefinedCast"
    using T surplus
    by (subst place_by_area.simps) (simp add: idx1 ma area_share_def)
  from pre nv r1 ra r2 show ?thesis
    unfolding sample_surface_random_def area_sampling_def Let_def start_eq acc
    by simp
qed

lemma run_ok_flat: "run_ok flat_mesh 1 (blank 2) zero_offset"
proof -
  have "num_triangles flat_mesh = 1" "num_vertices flat_mesh = 2"
    by (simp_all add: flat_mesh_def)
  with tri_ok_flat show ?thesis
    by (simp add: run_ok_def mesh_ok_def offsets_ok_zero blank_simps)
qed

lemma run_flat_surplus:
  "sample_surface_random flat_mesh 1 (blank 2) zero_offset (False, []) = Inl UndefinedCast"
  by (rule zero_area_surplus_fails [OF run_ok_flat _ total_area_flat])
     (simp_all add: flat_mesh_def blank_simps)

lemma place_by_area_unfold:
  assumes "place_by_area mesh offset n nms areas mesh_area t ps = Inr ps'"
    and "t < num_triangles mesh" "sample_idx (fst ps) < n"
    and "area_share nms (areas ! t) mesh_area = Inr q"
  shows "\<exists>st1. sample_idx st1 = sample_idx (fst ps) + min (n - sample_idx (fst ps)) q \<and>
           place_by_area mesh offset n nms areas mesh_area (t + 1)
             (st1, (snd ps)[t := snd ps ! t + min (n - sample_idx (fst ps)) q]) = Inr ps'"
proof -
  let ?k = "min (n - sample_idx (fst ps)) q"
  from assms obtain st1 where
    run: "sample_triangle mesh offset t (snd ps ! t) (snd ps ! t + ?k) (fst ps) = Inr st1" and
    rest: "place_by_area mesh offset n nms areas mesh_area (t + 1)
             (st1, (snd ps)[t := snd ps ! t + ?k]) = Inr ps'"
    by (subst (asm) place_by_area.simps) (auto simp: Let_def split: sum.splits)
  from sample_triangle_effect [OF run] have "sample_idx st1 = sample_idx (fst ps) + ?k" by auto
  with rest show ?thesis by blast
qed

lemma place_by_area_stop:
  assumes "place_by_area mesh offset n nms areas mesh_area t ps = Inr ps'"
    and "\<not> (t < num_triangles mesh \<and> sample_idx (fst ps) < n)"
  shows "ps' = ps"
  using assms by (subst (asm) place_by_area.simps) auto

lemma place_rest_unfold:
  assumes "place_rest mesh offset n t ps = Inr ps'"
    and "t < num_triangles mesh" "sample_idx (fst ps) < n"
  shows "\<exists>st1. sample_idx st1 = sample_idx (fst ps) + 1 \<and>
           place_rest mesh offset n (t + 1) (st1, (snd ps)[t := snd ps ! t + 1]) = Inr ps'"
proof -
  from assms obtain st1 where
    run: "sample_triangle mesh offset t (snd ps ! t) (snd ps ! t + 1) (fst ps) = Inr st1" and
    rest: "place_rest mesh offset n (t + 1) (st1, (snd ps)[t := snd ps ! t + 1]) = Inr ps'"
    by (subst (asm) place_rest.simps) (auto split: sum.splits)
  from sample_triangle_effect [OF run] have "sample_idx st1 = sample_idx (fst ps) + 1" by auto
  with rest show ?thesis by blast
qed

lemma place_rest_stop:
  assumes "place_rest mesh offset n t ps = Inr ps'"
    and "\<not> (t < num_triangles mesh \<and> sample_idx (fst ps) < n)"
  shows "ps' = ps"
  using assms by (subst (asm) place_rest.simps) auto

lemma dA_loop_2_1:
  assumes "3 \<le> length xs"
  shows "dA_loop 2 [a0, a1] [2, 1] 0 (xs, 0) =
    Inr (xs[0 := (xs ! 0)\<lparr>dA := a0 / 2\<rparr>, 1 := (xs ! 1)\<lparr>dA := a0 / 2\<rparr>,
            2 := (xs ! 2)\<lparr>dA := a1\<rparr>], 3)"
proof -
  from assms have ne: "xs \<noteq> []" by auto
  from assms ne show ?thesis
    by (simp add: dA_loop.simps stamp_dA.simps numeral_2_eq_2)
qed

lemma run_phases:
  assumes "sample_surface_random mesh m ao offset w = Inr out"
  shows "\<exists>ps1 ps2 ps3 k.
     snd ps1 = replicate (num_triangles mesh) m \<and>
     sample_idx (fst ps1) = num_triangles mesh * m \<and>
     place_by_area mesh offset (num_samples ao) (num_samples ao - num_triangles mesh * m)
        (tri_areas out) (total_area mesh) 0 ps1 = Inr ps2 \<and>
     place_rest mesh offset (num_samples ao) 0 ps2 = Inr ps3 \<and>
     snd ps3 = tri_sample_counts out \<and>
     length (sample_infos (fst ps3)) = length (sample_infos ao) \<and>
     dA_loop (num_triangles mesh) (tri_areas out) (tri_sample_counts out) 0
       (sample_infos (fst ps3), 0) = Inr (sample_infos (final out), k)"
proof -
  let ?T = "num_triangles mesh" and ?N = "num_samples ao"
  from run_cases [OF assms] obtain ps1 areas mesh_area ps2 ps3 infos k where
    r1: "place_min mesh offset m 0 (start ao w, replicate ?T 0) = Inr ps1" and
    ra: "area_loop mesh 0 (replicate ?T 0, 0) = Inr (areas, mesh_area)" and
    r2: "place_by_area mesh offset ?N (?N - sample_idx (fst ps1)) areas mesh_area 0 ps1 = Inr ps2" and
    r3: "place_rest mesh offset ?N 0 ps2 = Inr ps3" and
    r4: "dA_loop ?T areas (snd ps3) 0 (sample_infos (fst ps3), 0) = Inr (infos, k)" and
    out: "out = \<lparr>final = (fst ps3)\<lparr>sample_infos := infos\<rparr>, tri_sample_counts = snd ps3,
            tri_areas = areas\<rparr>"
    by blast
  have z: "\<forall>u. 0 \<le> u \<and> u < ?T \<longrightarrow> snd (start ao w, replicate ?T (0::nat)) ! u = 0" by simp
  from place_min_effect [OF r1 placed_start z] have
    p1: "placed ?T offset ps1" and c1: "\<And>u. u < ?T \<Longrightarrow> snd ps1 ! u = m" and
    l1: "same_lengths (start ao w) (fst ps1)"
    by simp_all
  from p1 have len1: "length (snd ps1) = ?T" and s1: "sample_idx (fst ps1) = sum_list (snd ps1)"
    by (simp_all add: placed_def)
  from nth_all_eq_replicate [OF len1 c1] have cs1: "snd ps1 = replicate ?T m" by simp
  with s1 have idx1: "sample_idx (fst ps1) = ?T * m" by (simp add: sum_list_replicate)
  from area_loop_effect [OF ra] have ma: "mesh_area = total_area mesh"
    by (simp add: total_area_def)
  from place_by_area_effect [OF r2 p1] have
    p2: "placed ?T offset ps2" and l2: "same_lengths (fst ps1) (fst ps2)" by simp_all
  from place_rest_effect [OF r3 p2] have l3: "same_lengths (fst ps2) (fst ps3)" by simp_all
  from l1 l2 l3 have "length (sample_infos (fst ps3)) = length (sample_infos ao)"
    by (simp add: same_lengths_def start_simps)
  with cs1 idx1 r2 r3 r4 ma out show ?thesis
    by (intro exI [of _ ps1] exI [of _ ps2] exI [of _ ps3] exI [of _ k]) simp
qed

text \<open>A run on two triangles with a minimum of one sample and three samples in all, in
  which the first triangle ends with two samples.\<close>

lemma two_triangles_slot_1:
  assumes run: "sample_surface_random mesh 1 ao offset w = Inr out"
    and T: "num_triangles mesh = 2"
    and room: "3 \<le> length (sample_infos ao)"
    and counts: "tri_sample_counts out = [2, 1]"
  shows "tri_idx (sample_infos (final out) ! 1) = 1"
    and "dA (sample_infos (final out) ! 1) = tri_areas out ! 0 / 2"
proof -
  from run_placed(5) [OF run] obtain zs where
    "calls (final out) = map (\<lambda>u. (u, 0, 1, u * 1)) [0..<2] @ zs" unfolding T by blast
  then have mem: "(1, 0, 1, 1) \<in> set (calls (final out))" by (simp add: upt_0_2)
  from run_placed(1) [OF run] have "content_ok offset (calls (final out)) (sample_infos (final out))"
    by (simp add: placed_def)
  with mem have "written_from offset 1 (0 + 0) (sample_infos (final out) ! (1 + 0))"
    unfolding content_ok_def by fastforce
  then show "tri_idx (sample_infos (final out) ! 1) = 1"
    by (simp add: written_from_def u32_def)
  from run_placed(7) [OF run] T obtain a0 a1 where ar: "tri_areas out = [a0, a1]"
    by (cases "tri_areas out"; cases "tl (tri_areas out)") auto
  from run_phases [OF run] obtain xs k where
    len: "length xs = length (sample_infos ao)" and
    d: "dA_loop 2 [a0, a1] [2, 1] 0 (xs, 0) = Inr (sample_infos (final out), k)"
    unfolding T counts ar by blast
  from room len have l3: "3 \<le> length xs" by simp
  from d [unfolded dA_loop_2_1 [OF l3]] have
    e: "sample_infos (final out) =
          xs[0 := (xs ! 0)\<lparr>dA := a0 / 2\<rparr>, 1 := (xs ! 1)\<lparr>dA := a0 / 2\<rparr>,
             2 := (xs ! 2)\<lparr>dA := a1\<rparr>]"
    by simp
  from l3 show "dA (sample_infos (final out) ! 1) = tri_areas out ! 0 / 2"
    unfolding e ar by simp
qed

lemma list2_eq: "length xs = 2 \<Longrightarrow> xs ! 0 = a \<Longrightarrow> xs ! 1 = b \<Longrightarrow> xs = [a, b]"
  by (cases xs; cases "tl xs") auto

lemma square_counts:
  assumes run: "sample_surface_random square_mesh 1 (blank 3) zero_offset w = Inr out"
  shows "tri_sample_counts out = [2, 1]" and "tri_areas out = [1 / 2, 1 / 2]"
proof -
  have T: "num_triangles square_mesh = 2" by (rule num_triangles_square)
  from run_placed(7) [OF run] run_placed(8) [OF run, of 0] run_placed(8) [OF run, of 1]
  show ar: "tri_areas out = [1 / 2, 1 / 2]"
    using tri_area_square by (intro list2_eq) (simp_all add: T)
  from run_phases [OF run] obtain ps1 ps2 ps3 where
    c1: "snd ps1 = [1, 1]" and i1: "sample_idx (fst ps1) = 2" and
    r2: "place_by_area square_mesh zero_offset 3 1 [1 / 2, 1 / 2] 1 0 ps1 = Inr ps2" and
    r3: "place_rest square_mesh zero_offset 3 0 ps2 = Inr ps3" and
    c3: "snd ps3 = tri_sample_counts out"
    unfolding T ar total_area_square blank_simps by (auto simp: numeral_2_eq_2)
  have q: "area_share 1 (1 / 2) 1 = Inr 0" by (simp add: area_share_def)
  from place_by_area_unfold [OF r2, of 0] obtain st1 where
    j1: "sample_idx st1 = 2" and
    r21: "place_by_area square_mesh zero_offset 3 1 [1 / 2, 1 / 2] 1 1 (st1, [1, 1]) = Inr ps2"
    using q by (auto simp: T i1 c1)
  from place_by_area_unfold [OF r21, of 0] obtain st2 where
    j2: "sample_idx st2 = 2" and
    r22: "place_by_area square_mesh zero_offset 3 1 [1 / 2, 1 / 2] 1 2 (st2, [1, 1]) = Inr ps2"
    using q by (auto simp: T j1 numeral_2_eq_2 numeral_3_eq_3)
  from place_by_area_stop [OF r22] have ps2: "ps2 = (st2, [1, 1])" by (simp add: T)
  from place_rest_unfold [OF r3 [unfolded ps2]] obtain st3 where
    j3: "sample_idx st3 = 3" and
    r31: "place_rest square_mesh zero_offset 3 1 (st3, [2, 1]) = Inr ps3"
    by (auto simp: T j2 numeral_2_eq_2 numeral_3_eq_3)
  from place_rest_stop [OF r31] have "ps3 = (st3, [2, 1])" by (simp add: j3)
  with c3 show "tri_sample_counts out = [2, 1]" by simp
qed

lemma num_triangles_sliver: "num_triangles sliver_mesh = 2"
  by (simp add: sliver_mesh_def)

lemma mesh_ok_sliver: "mesh_ok sliver_mesh"
  by (simp add: mesh_ok_def sliver_mesh_def upt_0_2 tri_ok_def int3_ok_def index_ok_def)

lemma tri_area_sliver: "tri_area sliver_mesh 0 = 1 / 2" "tri_area sliver_mesh 1 = 0"
  by (simp_all add: tri_area_def sliver_mesh_def triangle_area_def vsub_def cross_def)

lemma total_area_sliver: "total_area sliver_mesh = 1 / 2"
  using tri_area_sliver by (simp add: total_area_def num_triangles_sliver upt_0_2)

lemma run_ok_sliver: "run_ok sliver_mesh 1 (blank 3) zero_offset"
  by (simp add: run_ok_def mesh_ok_sliver offsets_ok_zero blank_simps num_triangles_sliver)
     (simp add: sliver_mesh_def)

lemma run_sliver:
  "\<exists>out. sample_surface_random sliver_mesh 1 (blank 3) zero_offset (False, []) = Inr out"
proof -
  have "num_samples (blank 3) = num_triangles sliver_mesh * 1 \<or>
        (0 < num_triangles sliver_mesh \<and> 0 < total_area sliver_mesh)"
    by (simp add: num_triangles_sliver total_area_sliver)
  from run_success [OF run_ok_sliver order_refl this] show ?thesis .
qed

lemma sliver_counts:
  assumes run: "sample_surface_random sliver_mesh 1 (blank 3) zero_offset w = Inr out"
  shows "tri_sample_counts out = [2, 1]" and "tri_areas out = [1 / 2, 0]"
proof -
  have T: "num_triangles sliver_mesh = 2" by (rule num_triangles_sliver)
  from run_placed(7) [OF run] run_placed(8) [OF run, of 0] run_placed(8) [OF run, of 1]
  show ar: "tri_areas out = [1 / 2, 0]"
    using tri_area_sliver by (intro list2_eq) (simp_all add: T)
  from run_phases [OF run] obtain ps1 ps2 ps3 where
    c1: "snd ps1 = [1, 1]" and i1: "sample_idx (fst ps1) = 2" and
    r2: "place_by_area sliver_mesh zero_offset 3 1 [1 / 2, 0] (1 / 2) 0 ps1 = Inr ps2" and
    r3: "place_rest sliver_mesh zero_offset 3 0 ps2 = Inr ps3" and
    c3: "snd ps3 = tri_sample_counts out"
    unfolding T ar total_area_sliver blank_simps by (auto simp: numeral_2_eq_2)
  have q: "area_share 1 (1 / 2) (1 / 2) = Inr 1" by (simp add: area_share_def)
  from place_by_area_unfold [OF r2, of 1] obtain st1 where
    j1: "sample_idx st1 = 3" and
    r21: "place_by_area sliver_mesh zero_offset 3 1 [1 / 2, 0] (1 / 2) 1 (st1, [2, 1]) = Inr ps2"
    using q by (auto simp: T i1 c1 numeral_2_eq_2 numeral_3_eq_3)
  from place_by_area_stop [OF r21] have ps2: "ps2 = (st1, [2, 1])" by (simp add: j1)
  from place_rest_stop [OF r3 [unfolded ps2]] have "ps3 = (st1, [2, 1])" by (simp add: j1)
  with c3 show "tri_sample_counts out = [2, 1]" by simp
qed

text \<open>
  Claim C1 (the differential area of a sample is the area of its own triangle divided by
  that triangle's final sample count). The pass of lines 196-206 walks the slots
  triangle by triangle, \<open>tri_sample_counts[t]\<close> slots for triangle \<open>t\<close>, as if the samples
  of one triangle were stored next to each other; Phases 1 to 3 store them phase by phase.
  On the unit square of two triangles, with a minimum of one sample per triangle and three
  samples in all, the run returns; the final counts are 2 and 1 and both areas are 1/2.
  Slot 1 was written in Phase 1 for triangle 1, whose area divided by its count is 1/2,
  and the pass stores there the value of triangle 0, which is 1/4.
\<close>

theorem dA_of_another_triangle:
  "\<not> isl (sample_surface_random square_mesh 1 (blank 3) zero_offset (False, [])) \<and>
   tri_sample_counts (projr
     (sample_surface_random square_mesh 1 (blank 3) zero_offset (False, []))) = [2, 1] \<and>
   tri_areas (projr
     (sample_surface_random square_mesh 1 (blank 3) zero_offset (False, []))) = [1 / 2, 1 / 2] \<and>
   tri_idx (sample_infos (final (projr
     (sample_surface_random square_mesh 1 (blank 3) zero_offset (False, [])))) ! 1) = 1 \<and>
   dA (sample_infos (final (projr
     (sample_surface_random square_mesh 1 (blank 3) zero_offset (False, [])))) ! 1) = 1 / 4"
proof -
  from run_square obtain out where
    run: "sample_surface_random square_mesh 1 (blank 3) zero_offset (False, []) = Inr out"
    by blast
  have room: "3 \<le> length (sample_infos (blank 3))" by (simp add: blank_simps)
  note c = square_counts [OF run]
  from two_triangles_slot_1 [OF run num_triangles_square room c(1)] c run
  show ?thesis by simp
qed

text \<open>
  Claim C8 (a triangle of area zero causes no division by zero, and its samples get the
  differential area 0). The divisor is never zero: every final count is positive
  (\<open>run_placed\<close>, third conclusion). The second half meets the same pass of lines 196-206:
  on \<open>sliver_mesh\<close>, with a minimum of one sample per triangle and three samples in all,
  Phase 2 gives the surplus sample to triangle 0, the final counts are 2 and 1, and slot 1,
  the only sample of the triangle of area zero, receives the value of triangle 0, 1/4.
\<close>

theorem zero_area_triangle_dA:
  "\<not> isl (sample_surface_random sliver_mesh 1 (blank 3) zero_offset (False, [])) \<and>
   tri_areas (projr
     (sample_surface_random sliver_mesh 1 (blank 3) zero_offset (False, []))) ! 1 = 0 \<and>
   tri_sample_counts (projr
     (sample_surface_random sliver_mesh 1 (blank 3) zero_offset (False, []))) ! 1 = 1 \<and>
   tri_idx (sample_infos (final (projr
     (sample_surface_random sliver_mesh 1 (blank 3) zero_offset (False, [])))) ! 1) = 1 \<and>
   dA (sample_infos (final (projr
     (sample_surface_random sliver_mesh 1 (blank 3) zero_offset (False, [])))) ! 1) = 1 / 4"
proof -
  from run_sliver obtain out where
    run: "sample_surface_random sliver_mesh 1 (blank 3) zero_offset (False, []) = Inr out"
    by blast
  have room: "3 \<le> length (sample_infos (blank 3))" by (simp add: blank_simps)
  note c = sliver_counts [OF run]
  from two_triangles_slot_1 [OF run num_triangles_sliver room c(1)] c run
  show ?thesis by simp
qed


end
